theory Spec2Isabelle
  imports Main
begin

section \<open>Package mines: data model\<close>

text \<open>
  The Go struct \<^verbatim>\<open>tile\<close>. The field \<^verbatim>\<open>value\<close> is a \<^verbatim>\<open>uint8\<close>: it is kept as a
  natural number and every increment of the source is written with its wrap-around
  \<open>mod 256\<close>. The sentinel 9 marks a mine.
\<close>

record tile =
  tile_value :: nat
  flagged :: bool
  clicked :: bool

text \<open>
  The Go struct \<^verbatim>\<open>turn\<close>. The \<^verbatim>\<open>uid\<close> field (an opaque UUID) is left out; times are
  natural numbers.
\<close>

record turn =
  turn_x :: nat
  turn_y :: nat
  turn_flag :: bool
  takenAt :: nat
  turn_tiles :: "tile list"

text \<open>
  The Go struct \<^verbatim>\<open>Game\<close>. The \<^verbatim>\<open>uint16\<close> fields are natural numbers, with the
  wrap-around \<open>mod 65536\<close> written out wherever the source computes in \<^verbatim>\<open>uint16\<close>.
  \<^verbatim>\<open>endedAt\<close> is \<open>None\<close> for Go's zero time (\<^verbatim>\<open>IsZero()\<close>). The map
  \<^verbatim>\<open>history\<close> only ever receives the key \<^verbatim>\<open>len(history)\<close>, so its keys are
  \<open>0 ..< n\<close> and it is the list of its values in key order. Each turn owns the array
  behind its \<^verbatim>\<open>tiles\<close> slice (it comes fresh from \<^verbatim>\<open>make\<close>); the local slice
  \<^verbatim>\<open>turn.tiles\<close> of \<^verbatim>\<open>ClickTile\<close> aliases the array stored in the history, so a
  write through it is a write to that entry of the history.
\<close>

record Game =
  width :: nat
  height :: nat
  mines :: nat
  flags :: nat
  startedAt :: nat
  endedAt :: "nat option"
  grid :: "tile list"
  won :: bool
  history :: "turn list"

datatype error =
  WidthExceedsMax
  | HeightExceedsMax
  | MinesExceedTiles
  | XTooLarge
  | YTooLarge
  | GameNotActive

definition zero_tile :: tile where
  "zero_tile = \<lparr>tile_value = 0, flagged = False, clicked = False\<rparr>"

definition isMine :: "tile \<Rightarrow> bool" where
  "isMine t = (9 = tile_value t)"

section \<open>Package mines: construction and forced end\<close>

text \<open>
  \<^verbatim>\<open>NewGame(w, h, m)\<close>; \<open>now\<close> is the value of \<^verbatim>\<open>time.Now()\<close>. The bound on the
  mines is computed in Go's \<^verbatim>\<open>int\<close>, hence over the integers here.
\<close>

definition NewGame :: "nat \<Rightarrow> nat \<Rightarrow> nat \<Rightarrow> nat \<Rightarrow> error + Game" where
  "NewGame w h m now =
     (let maxW = (250::int); maxH = (250::int); maxM = int w * int h - 2 in
      if maxW < int w then Inl WidthExceedsMax
      else if maxH < int h then Inl HeightExceedsMax
      else if maxM < int m then Inl MinesExceedTiles
      else Inr \<lparr>width = w, height = h, mines = m, flags = 0, startedAt = now,
                endedAt = None, grid = [], won = False, history = []\<rparr>)"

text \<open>\<^verbatim>\<open>End(won)\<close>: the parameter is not read by the body.\<close>

definition End :: "Game \<Rightarrow> bool \<Rightarrow> nat \<Rightarrow> Game" where
  "End g won_arg now = g\<lparr>endedAt := Some now, won := True\<rparr>"

section \<open>Package mines: generating the tiles\<close>

text \<open>The \<^verbatim>\<open>uint16\<close> index \<^verbatim>\<open>g.width*y+x\<close>.\<close>

definition index16 :: "Game \<Rightarrow> nat \<Rightarrow> nat \<Rightarrow> nat" where
  "index16 g x y = (width g * y + x) mod 65536"

text \<open>
  The loops \<^verbatim>\<open>for j := -1; j < 2; j++ { for i := -1; i < 2; i++\<close>: the pairs
  \<open>(j, i)\<close> in the order the source visits them.
\<close>

definition offsets :: "(int \<times> int) list" where
  "offsets = [(-1, -1), (-1, 0), (-1, 1), (0, -1), (0, 0), (0, 1), (1, -1), (1, 0), (1, 1)]"

text \<open>
  The placement loop of \<^verbatim>\<open>generateTiles\<close>. The random source is the list of the raw
  draws still to come, one pair per iteration; \<^verbatim>\<open>rand.Intn(n)\<close> is the draw reduced
  modulo \<open>n\<close>. The loop ends when the counter reaches \<^verbatim>\<open>g.mines\<close>; when the draws run
  out first, the loop has not ended and the result is \<open>None\<close>.
\<close>

fun placeMines :: "(nat \<times> nat) list \<Rightarrow> Game \<Rightarrow> nat \<Rightarrow> nat \<Rightarrow> nat \<Rightarrow> tile list \<Rightarrow> tile list option" where
  "placeMines [] g ignoreX ignoreY n ts = (if n < mines g then None else Some ts)"
| "placeMines ((rx, ry) # rnd) g ignoreX ignoreY n ts =
     (if n < mines g then
        (let x = rx mod width g; y = ry mod height g in
         if x = ignoreX \<and> y = ignoreY then placeMines rnd g ignoreX ignoreY n ts
         else if tile_value (ts ! index16 g x y) \<noteq> 9
           then placeMines rnd g ignoreX ignoreY ((n + 1) mod 65536)
                  (ts[index16 g x y := (ts ! index16 g x y)\<lparr>tile_value := 9\<rparr>])
           else placeMines rnd g ignoreX ignoreY n ts)
      else Some ts)"

text \<open>
  One step of the innermost loops of \<^verbatim>\<open>generateTiles\<close>, for the tile at
  \<open>(tileX, tileY)\<close> and the offset \<open>(j, i)\<close>; \<open>w\<close> and \<open>h\<close> are Go \<^verbatim>\<open>int\<close>s.
\<close>

definition countStep :: "int \<Rightarrow> int \<Rightarrow> nat \<Rightarrow> nat \<Rightarrow> int \<times> int \<Rightarrow> tile list \<Rightarrow> tile list" where
  "countStep w h tileX tileY ji ts =
     (let j = fst ji; i = snd ji; idx = nat (w * int tileY + int tileX) in
      if 0 = i \<and> 0 = j then ts
      else
        (let y2 = int tileY + j; x2 = int tileX + i in
         if 0 > x2 \<or> 0 > y2 \<or> x2 \<ge> w \<or> y2 \<ge> h then ts
         else if 9 = tile_value (ts ! nat (w * y2 + x2))
           then ts[idx := (ts ! idx)\<lparr>tile_value := (tile_value (ts ! idx) + 1) mod 256\<rparr>]
           else ts))"

definition numberTile :: "int \<Rightarrow> int \<Rightarrow> nat \<Rightarrow> nat \<Rightarrow> tile list \<Rightarrow> tile list" where
  "numberTile w h tileX tileY ts =
     (if 9 = tile_value (ts ! nat (w * int tileY + int tileX)) then ts
      else fold (countStep w h tileX tileY) offsets ts)"

definition numberTiles :: "int \<Rightarrow> int \<Rightarrow> tile list \<Rightarrow> tile list" where
  "numberTiles w h ts =
     fold (\<lambda>tileX. fold (\<lambda>tileY. numberTile w h tileX tileY) [0 ..< nat h]) [0 ..< nat w] ts"

definition generateTiles :: "(nat \<times> nat) list \<Rightarrow> Game \<Rightarrow> nat \<Rightarrow> nat \<Rightarrow> tile list option" where
  "generateTiles rnd g ignoreX ignoreY =
     (case placeMines rnd g ignoreX ignoreY 0
             (replicate ((height g * width g) mod 65536) zero_tile) of
        None \<Rightarrow> None
      | Some ts \<Rightarrow> Some (numberTiles (int (width g)) (int (height g)) ts))"

section \<open>Package mines: moves\<close>

text \<open>The tiles of the last turn: \<^verbatim>\<open>g.history[len(g.history)-1].tiles\<close>.\<close>

definition lastTiles :: "Game \<Rightarrow> tile list" where
  "lastTiles g = (if history g = [] then [] else turn_tiles (last (history g)))"

text \<open>\<^verbatim>\<open>tiles = make([]tile, g.height*g.width); copy(tiles, src)\<close>.\<close>

definition copyTiles :: "Game \<Rightarrow> tile list \<Rightarrow> tile list" where
  "copyTiles g src =
     (let n = (height g * width g) mod 65536 in
      take n src @ replicate (n - length src) zero_tile)"

text \<open>\<^verbatim>\<open>countFlags\<close>: the counter is a \<^verbatim>\<open>uint8\<close>, the index a Go \<^verbatim>\<open>int\<close>.\<close>

definition flagStep :: "int \<Rightarrow> int \<Rightarrow> tile list \<Rightarrow> nat \<Rightarrow> nat \<Rightarrow> int \<times> int \<Rightarrow> nat \<Rightarrow> nat" where
  "flagStep w h ts x y ji tot =
     (let j = fst ji; i = snd ji in
      if 0 = i \<and> 0 = j then tot
      else
        (let y2 = int y + j; x2 = int x + i in
         if 0 > x2 \<or> 0 > y2 \<or> x2 \<ge> w \<or> y2 \<ge> h then tot
         else if flagged (ts ! nat (w * y2 + x2)) then (tot + 1) mod 256
         else tot))"

definition countFlags :: "Game \<Rightarrow> nat \<Rightarrow> nat \<Rightarrow> nat" where
  "countFlags g x y =
     fold (flagStep (int (width g)) (int (height g)) (lastTiles g) x y) offsets 0"

text \<open>A write to \<^verbatim>\<open>turn.tiles[idx]\<close> of the turn stored under key \<open>n\<close>.\<close>

definition setTile :: "nat \<Rightarrow> nat \<Rightarrow> tile \<Rightarrow> Game \<Rightarrow> Game" where
  "setTile n idx t g =
     g\<lparr>history := (history g)[n := (history g ! n)
         \<lparr>turn_tiles := (turn_tiles (history g ! n))[idx := t]\<rparr>]\<rparr>"

text \<open>
  The win check at the end of \<^verbatim>\<open>ClickTile\<close>; it reads the tiles of the turn of this
  call (key \<open>n\<close>), whatever later turns the cascade has added.
\<close>

definition checkWin :: "nat \<Rightarrow> nat \<Rightarrow> Game \<Rightarrow> Game" where
  "checkWin n now g =
     (if endedAt g = None then
        (let ts = turn_tiles (history g ! n);
             tot = length (filter (\<lambda>t. clicked t \<or> 9 = tile_value t) ts) in
         if tot = length ts then End g True now else g)
      else g)"

text \<open>
  \<^verbatim>\<open>ClickTile\<close> and \<^verbatim>\<open>clickNeighbors\<close> call each other. The first argument bounds the
  depth of the calls: \<open>None\<close> means that the bound was reached (or that the placement of
  the mines did not end). The result is the game after the call and the error returned,
  since a call can change the game and still return an error. \<^verbatim>\<open>clickNeighbors\<close> reads
  the tiles of the last turn once, on entry (\<open>snap\<close>), and drops the errors of its calls.
  \<open>rnd\<close> are the draws of the random source and \<open>now\<close> is the reading of
  \<^verbatim>\<open>time.Now()\<close>, one value for the whole call. \<^verbatim>\<open>newTurn\<close> is taken to succeed: its
  only error is that of \<^verbatim>\<open>uuid.NewUUID\<close>, returned before the game is touched.
\<close>

function (sequential) ClickTile :: "nat \<Rightarrow> (nat \<times> nat) list \<Rightarrow> nat \<Rightarrow> Game \<Rightarrow> nat \<Rightarrow> nat \<Rightarrow> bool \<Rightarrow> (Game \<times> error option) option"
  and clickNeighbors :: "nat \<Rightarrow> (nat \<times> nat) list \<Rightarrow> nat \<Rightarrow> Game \<Rightarrow> nat \<Rightarrow> nat \<Rightarrow> Game option"
  and clickLoop :: "nat \<Rightarrow> (nat \<times> nat) list \<Rightarrow> nat \<Rightarrow> tile list \<Rightarrow> nat \<Rightarrow> nat \<Rightarrow> (int \<times> int) list \<Rightarrow> Game \<Rightarrow> Game option"
  where
  "ClickTile 0 rnd now g x y flag = None"
| "ClickTile (Suc k) rnd now g x y flag =
     (if width g \<le> x then Some (g, Some XTooLarge)
      else if height g \<le> y then Some (g, Some YTooLarge)
      else
        (case (if history g = [] then generateTiles rnd g x y
               else Some (copyTiles g (lastTiles g))) of
           None \<Rightarrow> None
         | Some ts \<Rightarrow>
             (let n = length (history g);
                  g1 = g\<lparr>history := history g @
                         [\<lparr>turn_x = x, turn_y = y, turn_flag = flag, takenAt = now,
                           turn_tiles = ts\<rparr>]\<rparr>;
                  idx = index16 g x y;
                  t = ts ! idx
              in
              if endedAt g1 \<noteq> None then Some (g1, Some GameNotActive)
              else
                (case
                   (if clicked t then
                      (if \<not> flag then
                         (if countFlags g1 x y = tile_value t
                          then clickNeighbors k rnd now g1 x y else Some g1)
                       else Some g1)
                    else if \<not> flagged t then
                      (if flag then
                         Some ((setTile n idx (t\<lparr>flagged := True\<rparr>) g1)
                                 \<lparr>flags := (flags g1 + 1) mod 65536\<rparr>)
                       else
                         (let g2 = setTile n idx (t\<lparr>clicked := True\<rparr>) g1 in
                          if 9 = tile_value t then Some (g2\<lparr>endedAt := Some now\<rparr>)
                          else if 0 = tile_value t then clickNeighbors k rnd now g2 x y
                          else Some g2))
                    else if flagged t \<and> flag then
                      Some ((setTile n idx (t\<lparr>flagged := False\<rparr>) g1)
                              \<lparr>flags := (flags g1 + 65535) mod 65536\<rparr>)
                    else Some g1)
                 of
                   None \<Rightarrow> None
                 | Some g3 \<Rightarrow> Some (checkWin n now g3, None)))))"
| "clickNeighbors k rnd now g x y = clickLoop k rnd now (lastTiles g) x y offsets g"
| "clickLoop k rnd now snap x y [] g = Some g"
| "clickLoop k rnd now snap x y (ji # rest) g =
     (let j = fst ji; i = snd ji in
      if 0 = i \<and> 0 = j then clickLoop k rnd now snap x y rest g
      else
        (let y2 = int y + j; x2 = int x + i in
         if 0 > x2 \<or> 0 > y2 \<or> x2 \<ge> int (width g) \<or> y2 \<ge> int (height g)
         then clickLoop k rnd now snap x y rest g
         else
           (let t = snap ! index16 g (nat x2) (nat y2) in
            if \<not> clicked t \<and> \<not> flagged t then
              (case ClickTile k rnd now g (nat x2) (nat y2) False of
                 None \<Rightarrow> None
               | Some (g', e) \<Rightarrow> clickLoop k rnd now snap x y rest g')
            else clickLoop k rnd now snap x y rest g)))"
  by pat_completeness auto

termination
  by (relation "inv_image (less_than <*lex*> less_than)
        (\<lambda>v. case v of
            Inl (k, _) \<Rightarrow> (3 * k, 0)
          | Inr (Inl (k, _)) \<Rightarrow> (3 * k + 2, 0)
          | Inr (Inr (k, rnd, now, snap, x, y, os, g)) \<Rightarrow> (3 * k + 1, length os))") auto

section \<open>Package mines: the view\<close>

text \<open>\<^verbatim>\<open>fmt.Sprintf("%d", v)\<close> for an unsigned \<open>v\<close>.\<close>

fun decimal :: "nat \<Rightarrow> string" where
  "decimal n =
     (if n < 10 then [''0123456789'' ! n]
      else decimal (n div 10) @ [''0123456789'' ! (n mod 10)])"

text \<open>
  The object that \<^verbatim>\<open>JSON\<close> marshals: the keys \<^verbatim>\<open>ended_at\<close> and \<^verbatim>\<open>won\<close> are
  present only when set (\<open>None\<close> when absent).
\<close>

record view =
  view_started_at :: nat
  view_mines :: nat
  view_height :: nat
  view_width :: nat
  view_flags :: nat
  view_ended_at :: "nat option"
  view_won :: "bool option"
  view_grid :: "string list"

text \<open>The chain of tests that picks the string of one tile.\<close>

definition symbol :: "bool \<Rightarrow> bool \<Rightarrow> tile \<Rightarrow> string" where
  "symbol lost gwon t =
     (if lost \<and> isMine t \<and> \<not> flagged t then ''9''
      else if lost \<and> \<not> isMine t \<and> flagged t then ''X''
      else if flagged t \<or> (gwon \<and> isMine t) then ''!''
      else if \<not> clicked t then ''?''
      else if 0 = tile_value t then ''''
      else decimal (tile_value t))"

text \<open>
  \<^verbatim>\<open>JSON\<close>: \<^verbatim>\<open>grid\<close> is made with \<^verbatim>\<open>g.height*g.width\<close> empty strings and the loop
  overwrites the entries of the tiles of the last turn (none when no turn was taken).
\<close>

definition JSON :: "Game \<Rightarrow> view" where
  "JSON g =
     (let lost = (\<not> won g \<and> endedAt g \<noteq> None);
          cells = map (symbol lost (won g)) (lastTiles g) in
      \<lparr>view_started_at = startedAt g,
       view_mines = mines g,
       view_height = height g,
       view_width = width g,
       view_flags = (if endedAt g \<noteq> None \<and> won g then mines g else flags g),
       view_ended_at = endedAt g,
       view_won = (if endedAt g \<noteq> None \<and> won g then Some True else None),
       view_grid = cells @ replicate ((height g * width g) mod 65536 - length cells) ''''\<rparr>)"

section \<open>Reachable games\<close>

text \<open>
  The fields of \<^verbatim>\<open>Game\<close> are unexported: a caller holds only games that \<^verbatim>\<open>NewGame\<close>
  returned, after any number of calls of \<^verbatim>\<open>ClickTile\<close> and \<^verbatim>\<open>End\<close>.
\<close>

inductive reachable :: "Game \<Rightarrow> bool" where
  reach_new: "NewGame w h m now = Inr g \<Longrightarrow> reachable g"
| reach_click: "reachable g \<Longrightarrow> ClickTile fuel rnd now g x y flag = Some (g', e) \<Longrightarrow> reachable g'"
| reach_end: "reachable g \<Longrightarrow> reachable (End g b now)"

section \<open>Two small games, step by step\<close>

definition mkTile :: "nat \<Rightarrow> bool \<Rightarrow> bool \<Rightarrow> tile" where
  "mkTile v f c = \<lparr>tile_value = v, flagged = f, clicked = c\<rparr>"

definition mkTurn :: "nat \<Rightarrow> nat \<Rightarrow> bool \<Rightarrow> nat \<Rightarrow> tile list \<Rightarrow> turn" where
  "mkTurn x y f tm ts = \<lparr>turn_x = x, turn_y = y, turn_flag = f, takenAt = tm, turn_tiles = ts\<rparr>"

text \<open>A row of three tiles with one mine, which the draws put at \<open>(2, 0)\<close>.\<close>

definition rowGame :: "nat \<Rightarrow> nat option \<Rightarrow> turn list \<Rightarrow> Game" where
  "rowGame fl ended hist =
     \<lparr>width = 3, height = 1, mines = 1, flags = fl, startedAt = 0, endedAt = ended,
      grid = [], won = False, history = hist\<rparr>"

definition rowTurn1 :: turn where
  "rowTurn1 = mkTurn 1 0 False 1 [mkTile 0 False False, mkTile 1 False True, mkTile 9 False False]"

definition rowTurn2 :: turn where
  "rowTurn2 = mkTurn 0 0 True 2 [mkTile 0 True False, mkTile 1 False True, mkTile 9 False False]"

definition rowTurn3 :: turn where
  "rowTurn3 = mkTurn 1 0 False 3 [mkTile 0 True False, mkTile 1 False True, mkTile 9 False False]"

definition rowTurn4 :: turn where
  "rowTurn4 = mkTurn 2 0 False 3 [mkTile 0 True False, mkTile 1 False True, mkTile 9 False True]"

definition rowTurn5 :: turn where
  "rowTurn5 = mkTurn 0 0 False 4 [mkTile 0 True False, mkTile 1 False True, mkTile 9 False True]"

text \<open>The row after the first reveal and the flag, and after the chord that loses.\<close>

definition rowFlagged :: Game where
  "rowFlagged = rowGame 1 None [rowTurn1, rowTurn2]"

definition rowLost :: Game where
  "rowLost = rowGame 1 (Some 3) [rowTurn1, rowTurn2, rowTurn3, rowTurn4]"

text \<open>A square of four tiles with one mine, which the draws put at \<open>(1, 0)\<close>.\<close>

definition sqGame :: "nat \<Rightarrow> nat option \<Rightarrow> turn list \<Rightarrow> Game" where
  "sqGame fl ended hist =
     \<lparr>width = 2, height = 2, mines = 1, flags = fl, startedAt = 0, endedAt = ended,
      grid = [], won = False, history = hist\<rparr>"

definition sqTurn1 :: turn where
  "sqTurn1 = mkTurn 0 0 False 1
     [mkTile 1 False True, mkTile 9 False False, mkTile 1 False False, mkTile 1 False False]"

definition sqTurn2 :: turn where
  "sqTurn2 = mkTurn 1 1 True 2
     [mkTile 1 False True, mkTile 9 False False, mkTile 1 False False, mkTile 1 True False]"

definition sqTurn3 :: turn where
  "sqTurn3 = mkTurn 0 0 False 3
     [mkTile 1 False True, mkTile 9 False False, mkTile 1 False False, mkTile 1 True False]"

definition sqTurn4 :: turn where
  "sqTurn4 = mkTurn 1 0 False 3
     [mkTile 1 False True, mkTile 9 False True, mkTile 1 False False, mkTile 1 True False]"

definition sqTurn5 :: turn where
  "sqTurn5 = mkTurn 0 1 False 3
     [mkTile 1 False True, mkTile 9 False True, mkTile 1 False False, mkTile 1 True False]"

definition sqFlagged :: Game where
  "sqFlagged = sqGame 1 None [sqTurn1, sqTurn2]"

definition sqLost :: Game where
  "sqLost = sqGame 1 (Some 3) [sqTurn1, sqTurn2, sqTurn3, sqTurn4, sqTurn5]"

section \<open>Evaluating the model\<close>

lemma replicate_numeral: "replicate (numeral k) x = x # replicate (pred_numeral k) x"
  by (simp add: numeral_eq_Suc)

lemma list_update_Cons_numeral: "(x # xs)[numeral k := y] = x # xs[pred_numeral k := y]"
  by (simp add: numeral_eq_Suc)

lemmas eval_defs = generateTiles_def index16_def zero_tile_def numberTiles_def numberTile_def
  countStep_def offsets_def replicate_numeral list_update_Cons_numeral
  copyTiles_def lastTiles_def countFlags_def flagStep_def setTile_def checkWin_def End_def
  Let_def upt_rec isMine_def

lemmas demo_defs = mkTile_def mkTurn_def rowGame_def rowTurn1_def rowTurn2_def rowTurn3_def
  rowTurn4_def rowTurn5_def rowFlagged_def rowLost_def sqGame_def sqTurn1_def sqTurn2_def
  sqTurn3_def sqTurn4_def sqTurn5_def sqFlagged_def sqLost_def

lemma row_new: "NewGame 3 1 1 0 = Inr (rowGame 0 None [])"
  by (simp add: NewGame_def rowGame_def)

lemma row_reveal:
  "ClickTile (Suc 0) [(2, 0)] 1 (rowGame 0 None []) 1 0 False = Some (rowGame 0 None [rowTurn1], None)"
  by (simp add: demo_defs eval_defs)

lemma row_flag:
  "ClickTile (Suc 0) [] 2 (rowGame 0 None [rowTurn1]) 0 0 True = Some (rowFlagged, None)"
  by (simp add: demo_defs eval_defs)

lemma row_chord:
  "ClickTile (Suc (Suc 0)) [] 3 rowFlagged 1 0 False = Some (rowLost, None)"
  by (simp add: demo_defs eval_defs)

lemma row_rejected:
  "ClickTile (Suc 0) [] 4 rowLost 0 0 False =
     Some (rowLost\<lparr>history := history rowLost @ [rowTurn5]\<rparr>, Some GameNotActive)"
  by (simp add: demo_defs eval_defs)

lemma reachable_rowFlagged: "reachable rowFlagged"
  by (rule reach_click[OF reach_click[OF reach_new[OF row_new] row_reveal] row_flag])

lemma reachable_rowLost: "reachable rowLost"
  by (rule reach_click[OF reachable_rowFlagged row_chord])






section \<open>Construction\<close>

lemma NewGame_Inr:
  "NewGame w h m now = Inr g \<longleftrightarrow>
     (w \<le> 250 \<and> h \<le> 250 \<and> m + 2 \<le> w * h \<and>
      g = \<lparr>width = w, height = h, mines = m, flags = 0, startedAt = now,
            endedAt = None, grid = [], won = False, history = []\<rparr>)"
proof -
  have "(int w * int h - 2 < int m) = (\<not> m + 2 \<le> w * h)"
    by (simp add: not_le flip: of_nat_mult) linarith
  then show ?thesis
    by (auto simp: NewGame_def Let_def)
qed

text \<open>
  C4, as stated, asks only for \<open>mineCount < width * height\<close>. \<^verbatim>\<open>NewGame\<close> compares the
  mines with \<^verbatim>\<open>int(w)*int(h) - 2\<close>: a board of one tile and no mine is refused.
\<close>

theorem NewGame_one_tile_refused:
  "(0::nat) < 1 * 1 \<and> NewGame 1 1 0 0 = Inl MinesExceedTiles"
  by (simp add: NewGame_def)

text \<open>
  C4 (amended): for every width and height between 1 and 250 and every \<open>mineCount\<close> with
  \<open>mineCount + 2 \<le> width * height\<close>, \<^verbatim>\<open>NewGame\<close> succeeds and the game it returns is in
  progress (\<^verbatim>\<open>endedAt\<close> zero, \<^verbatim>\<open>won\<close> false), has no flag, and has no tiles yet: no turn
  in its history, hence no mine placed and nothing revealed.
\<close>

theorem NewGame_valid:
  "1 \<le> w \<Longrightarrow> w \<le> 250 \<Longrightarrow> 1 \<le> h \<Longrightarrow> h \<le> 250 \<Longrightarrow> m + 2 \<le> w * h \<Longrightarrow>
   \<exists>g. NewGame w h m now = Inr g \<and> width g = w \<and> height g = h \<and> mines g = m \<and>
       endedAt g = None \<and> \<not> won g \<and> flags g = 0 \<and> history g = [] \<and> grid g = [] \<and>
       lastTiles g = []"
  by (simp add: NewGame_Inr lastTiles_def)

theorem NewGame_valid_witness:
  "\<exists>g. NewGame 2 2 2 7 = Inr g \<and> width g = 2 \<and> height g = 2 \<and> mines g = 2 \<and>
       endedAt g = None \<and> \<not> won g \<and> flags g = 0 \<and> history g = [] \<and> grid g = [] \<and>
       lastTiles g = []"
  using NewGame_valid[of 2 2 2 7] by simp

section \<open>Forced end\<close>

text \<open>
  C9 says that \<^verbatim>\<open>End(false)\<close> leaves the game lost. The body of \<^verbatim>\<open>End\<close> sets
  \<^verbatim>\<open>won = true\<close> whatever its argument: after \<^verbatim>\<open>End(false)\<close> the game is marked won and
  the view carries \<^verbatim>\<open>"won": true\<close> and the number of mines as its flags.
\<close>

theorem End_false_marks_won:
  "won (End g False now) \<and> endedAt (End g False now) = Some now \<and>
   view_won (JSON (End g False now)) = Some True \<and>
   view_flags (JSON (End g False now)) = mines g"
  by (simp add: End_def JSON_def)

section \<open>The view\<close>

lemma JSON_grid_length:
  "length (lastTiles g) \<le> (height g * width g) mod 65536 \<Longrightarrow>
   length (view_grid (JSON g)) = (height g * width g) mod 65536"
  by (simp add: JSON_def Let_def)

lemma JSON_grid_nth:
  "i < length (lastTiles g) \<Longrightarrow>
   view_grid (JSON g) ! i = symbol (\<not> won g \<and> endedAt g \<noteq> None) (won g) (lastTiles g ! i)"
  by (simp add: JSON_def Let_def nth_append)

lemma JSON_no_turn:
  "history g = [] \<Longrightarrow> view_grid (JSON g) = replicate ((height g * width g) mod 65536) ''''"
  by (simp add: JSON_def lastTiles_def)

text \<open>
  C5 says that the view follows the table on a board with no move yet, where every tile
  is hidden. Such a board has no turn: the loop of \<^verbatim>\<open>JSON\<close> writes nothing and every
  cell keeps the empty string, the symbol of an opened tile with no mine around, not
  \<^verbatim>\<open>"?"\<close>.
\<close>

theorem JSON_new_game_all_empty:
  "NewGame 3 1 1 0 = Inr (rowGame 0 None []) \<and>
   view_grid (JSON (rowGame 0 None [])) = ['''', '''', '''']"
  using row_new by (simp add: JSON_no_turn rowGame_def replicate_numeral)

section \<open>Chording on a wrong flag\<close>

text \<open>
  C10: there is a reachable game with a revealed tile \<open>(1, 0)\<close> whose number (1) equals the
  number of flags around it, the flag standing on \<open>(0, 0)\<close>, which is no mine; the chord on
  \<open>(1, 0)\<close> reveals the unflagged mine at \<open>(2, 0)\<close> and the game is lost (ended, not won).
\<close>

theorem chord_reveals_mine:
  "reachable rowFlagged \<and> endedAt rowFlagged = None \<and>
   clicked (lastTiles rowFlagged ! index16 rowFlagged 1 0) \<and>
   countFlags rowFlagged 1 0 = tile_value (lastTiles rowFlagged ! index16 rowFlagged 1 0) \<and>
   flagged (lastTiles rowFlagged ! index16 rowFlagged 0 0) \<and>
   \<not> isMine (lastTiles rowFlagged ! index16 rowFlagged 0 0) \<and>
   isMine (lastTiles rowFlagged ! index16 rowFlagged 2 0) \<and>
   \<not> flagged (lastTiles rowFlagged ! index16 rowFlagged 2 0) \<and>
   \<not> clicked (lastTiles rowFlagged ! index16 rowFlagged 2 0) \<and>
   ClickTile (Suc (Suc 0)) [] 3 rowFlagged 1 0 False = Some (rowLost, None) \<and>
   clicked (lastTiles rowLost ! index16 rowLost 2 0) \<and>
   endedAt rowLost = Some 3 \<and> \<not> won rowLost \<and>
   view_won (JSON rowLost) = None \<and> view_grid (JSON rowLost) = [''X'', ''1'', ''9'']"
  by (simp add: reachable_rowFlagged row_chord)
     (simp add: demo_defs eval_defs JSON_def symbol_def)

section \<open>The body of a move, piece by piece\<close>

text \<open>
  Names for the parts of the body of \<^verbatim>\<open>ClickTile\<close>: the tiles of the new turn, the
  game with the new turn stored, and the case distinction on the tile, where \<open>cn\<close>
  stands for the call of \<^verbatim>\<open>clickNeighbors\<close>.
\<close>

definition newTiles :: "(nat \<times> nat) list \<Rightarrow> Game \<Rightarrow> nat \<Rightarrow> nat \<Rightarrow> tile list option" where
  "newTiles rnd g x y =
     (if history g = [] then generateTiles rnd g x y else Some (copyTiles g (lastTiles g)))"

definition pushTurn :: "Game \<Rightarrow> nat \<Rightarrow> nat \<Rightarrow> bool \<Rightarrow> nat \<Rightarrow> tile list \<Rightarrow> Game" where
  "pushTurn g x y flag now ts =
     g\<lparr>history := history g @
         [\<lparr>turn_x = x, turn_y = y, turn_flag = flag, takenAt = now, turn_tiles = ts\<rparr>]\<rparr>"

definition dispatch :: "(Game \<Rightarrow> Game option) \<Rightarrow> nat \<Rightarrow> nat \<Rightarrow> nat \<Rightarrow> tile \<Rightarrow> bool \<Rightarrow> nat \<Rightarrow> nat \<Rightarrow> Game \<Rightarrow> Game option" where
  "dispatch cn now n idx t flag x y g1 =
     (if clicked t then
        (if \<not> flag then (if countFlags g1 x y = tile_value t then cn g1 else Some g1)
         else Some g1)
      else if \<not> flagged t then
        (if flag then
           Some ((setTile n idx (t\<lparr>flagged := True\<rparr>) g1)\<lparr>flags := (flags g1 + 1) mod 65536\<rparr>)
         else if 9 = tile_value t then
           Some ((setTile n idx (t\<lparr>clicked := True\<rparr>) g1)\<lparr>endedAt := Some now\<rparr>)
         else if 0 = tile_value t then cn (setTile n idx (t\<lparr>clicked := True\<rparr>) g1)
         else Some (setTile n idx (t\<lparr>clicked := True\<rparr>) g1))
      else if flagged t \<and> flag then
        Some ((setTile n idx (t\<lparr>flagged := False\<rparr>) g1)\<lparr>flags := (flags g1 + 65535) mod 65536\<rparr>)
      else Some g1)"

lemma ClickTile_Suc:
  "ClickTile (Suc k) rnd now g x y flag =
     (if width g \<le> x then Some (g, Some XTooLarge)
      else if height g \<le> y then Some (g, Some YTooLarge)
      else
        (case newTiles rnd g x y of
           None \<Rightarrow> None
         | Some ts \<Rightarrow>
             if endedAt g \<noteq> None then Some (pushTurn g x y flag now ts, Some GameNotActive)
             else
               (case dispatch (\<lambda>g'. clickNeighbors k rnd now g' x y) now (length (history g))
                       (index16 g x y) (ts ! index16 g x y) flag x y (pushTurn g x y flag now ts) of
                  None \<Rightarrow> None
                | Some g3 \<Rightarrow> Some (checkWin (length (history g)) now g3, None))))"
  by (simp add: Let_def newTiles_def pushTurn_def dispatch_def split: option.split)

lemma clickLoop_Cons:
  "clickLoop k rnd now snap x y ((j, i) # rest) g =
     (if (i = 0 \<and> j = 0) \<or> int x + i < 0 \<or> int y + j < 0 \<or>
         int (width g) \<le> int x + i \<or> int (height g) \<le> int y + j
      then clickLoop k rnd now snap x y rest g
      else if clicked (snap ! index16 g (nat (int x + i)) (nat (int y + j))) \<or>
              flagged (snap ! index16 g (nat (int x + i)) (nat (int y + j)))
      then clickLoop k rnd now snap x y rest g
      else
        (case ClickTile k rnd now g (nat (int x + i)) (nat (int y + j)) False of
           None \<Rightarrow> None
         | Some (g', e) \<Rightarrow> clickLoop k rnd now snap x y rest g'))"
  by (auto simp: Let_def)

declare ClickTile.simps(2) [simp del]

declare clickLoop.simps(2) [simp del]

section \<open>Well-formed games\<close>

text \<open>
  What \<^verbatim>\<open>NewGame\<close> establishes and every move keeps: the sides are between 1 and 250,
  so that no \<^verbatim>\<open>uint16\<close> index wraps, two tiles at least are no mines, and the tiles of
  every turn cover the board.
\<close>

definition okGame :: "Game \<Rightarrow> bool" where
  "okGame g =
     (0 < width g \<and> width g \<le> 250 \<and> 0 < height g \<and> height g \<le> 250 \<and>
      mines g + 2 \<le> width g * height g \<and>
      (\<forall>t \<in> set (history g). length (turn_tiles t) = width g * height g))"

lemma board_size: "okGame g \<Longrightarrow> width g * height g \<le> 62500"
  using mult_le_mono[of "width g" 250 "height g" 250] by (simp add: okGame_def)

lemma board_size_mod: "okGame g \<Longrightarrow> (height g * width g) mod 65536 = width g * height g"
  using board_size[of g] by (simp add: mult.commute)

lemma cell_index:
  assumes "x < w" "y < h"
  shows "w * y + x < w * (h::nat)"
proof -
  have "w * y + x < w * y + w" using assms by simp
  also have "\<dots> = w * Suc y" by simp
  also have "\<dots> \<le> w * h" using assms by (intro mult_le_mono2) simp
  finally show ?thesis .
qed

lemma index16_eq: "okGame g \<Longrightarrow> x < width g \<Longrightarrow> y < height g \<Longrightarrow> index16 g x y = width g * y + x"
  using cell_index[of x "width g" y "height g"] board_size[of g] by (simp add: index16_def)

lemma index16_less:
  "okGame g \<Longrightarrow> x < width g \<Longrightarrow> y < height g \<Longrightarrow> index16 g x y < width g * height g"
  using cell_index[of x "width g" y "height g"] by (simp add: index16_eq)

lemma cell_index_inj:
  assumes "x < w" "x' < w" "w * y + x = w * y' + (x'::nat)"
  shows "x = x' \<and> y = y'"
proof -
  have "x = (w * y + x) mod w" using assms(1) by simp
  also have "\<dots> = (w * y' + x') mod w" by (simp only: assms(3))
  also have "\<dots> = x'" using assms(2) by simp
  finally have "x = x'" .
  moreover from this assms have "y = y'" by simp
  ultimately show ?thesis by simp
qed

lemma lastTiles_length: "okGame g \<Longrightarrow> history g \<noteq> [] \<Longrightarrow> length (lastTiles g) = width g * height g"
  by (simp add: okGame_def lastTiles_def)

lemma copyTiles_last: "okGame g \<Longrightarrow> history g \<noteq> [] \<Longrightarrow> copyTiles g (lastTiles g) = lastTiles g"
  by (simp add: copyTiles_def Let_def board_size_mod lastTiles_length)

lemma newTiles_later: "okGame g \<Longrightarrow> history g \<noteq> [] \<Longrightarrow> newTiles rnd g x y = Some (lastTiles g)"
  by (simp add: newTiles_def copyTiles_last)

lemma pushTurn_simps [simp]:
  "width (pushTurn g x y f now ts) = width g"
  "height (pushTurn g x y f now ts) = height g"
  "mines (pushTurn g x y f now ts) = mines g"
  "flags (pushTurn g x y f now ts) = flags g"
  "startedAt (pushTurn g x y f now ts) = startedAt g"
  "endedAt (pushTurn g x y f now ts) = endedAt g"
  "grid (pushTurn g x y f now ts) = grid g"
  "won (pushTurn g x y f now ts) = won g"
  "history (pushTurn g x y f now ts) \<noteq> []"
  "length (history (pushTurn g x y f now ts)) = Suc (length (history g))"
  "lastTiles (pushTurn g x y f now ts) = ts"
  by (simp_all add: pushTurn_def lastTiles_def)

lemma okGame_pushTurn:
  "okGame g \<Longrightarrow> length ts = width g * height g \<Longrightarrow> okGame (pushTurn g x y f now ts)"
  by (auto simp: okGame_def pushTurn_def)

lemma setTile_simps [simp]:
  "width (setTile n idx t g) = width g"
  "height (setTile n idx t g) = height g"
  "mines (setTile n idx t g) = mines g"
  "flags (setTile n idx t g) = flags g"
  "startedAt (setTile n idx t g) = startedAt g"
  "endedAt (setTile n idx t g) = endedAt g"
  "grid (setTile n idx t g) = grid g"
  "won (setTile n idx t g) = won g"
  "length (history (setTile n idx t g)) = length (history g)"
  "(history (setTile n idx t g) = []) = (history g = [])"
  by (simp_all add: setTile_def)

lemma lastTiles_setTile:
  "history g \<noteq> [] \<Longrightarrow> n = length (history g) - 1 \<Longrightarrow>
   lastTiles (setTile n idx t g) = (lastTiles g)[idx := t]"
  by (simp add: setTile_def lastTiles_def last_conv_nth)

lemma okGame_setTile:
  assumes "okGame g"
  shows "okGame (setTile n idx t g)"
proof (cases "n < length (history g)")
  case True
  then have "history g ! n \<in> set (history g)" by simp
  then show ?thesis
    using assms
    by (auto simp: okGame_def setTile_def dest!: subsetD[OF set_update_subset_insert])
next
  case False
  then have "length (history g) \<le> n" by simp
  then show ?thesis using assms by (simp add: okGame_def setTile_def list_update_beyond)
qed

lemma checkWin_simps [simp]:
  "width (checkWin n now g) = width g"
  "height (checkWin n now g) = height g"
  "mines (checkWin n now g) = mines g"
  "flags (checkWin n now g) = flags g"
  "startedAt (checkWin n now g) = startedAt g"
  "grid (checkWin n now g) = grid g"
  "history (checkWin n now g) = history g"
  "lastTiles (checkWin n now g) = lastTiles g"
  "okGame (checkWin n now g) = okGame g"
  by (simp_all add: checkWin_def End_def Let_def lastTiles_def okGame_def)

section \<open>What a revealing move may change\<close>

text \<open>
  A tile after some reveals: same number, same flag, and revealed if it was. A game
  that ended did so by a win or shows a revealed mine (\<open>endedOk\<close>). \<open>ext g g'\<close> relates
  a game to a later one reached without toggling a flag.
\<close>

definition tileLe :: "tile \<Rightarrow> tile \<Rightarrow> bool" where
  "tileLe t t' = (tile_value t' = tile_value t \<and> flagged t' = flagged t \<and> (clicked t \<longrightarrow> clicked t'))"

definition mineShown :: "Game \<Rightarrow> bool" where
  "mineShown g = (\<exists>t \<in> set (lastTiles g). clicked t \<and> isMine t)"

definition endedOk :: "Game \<Rightarrow> bool" where
  "endedOk g = (endedAt g \<noteq> None \<longrightarrow> won g \<or> mineShown g)"

definition ext :: "Game \<Rightarrow> Game \<Rightarrow> bool" where
  "ext g g' =
     (width g' = width g \<and> height g' = height g \<and> mines g' = mines g \<and> flags g' = flags g \<and>
      startedAt g' = startedAt g \<and> grid g' = grid g \<and> history g' \<noteq> [] \<and> okGame g' \<and>
      length (history g) \<le> length (history g') \<and>
      list_all2 tileLe (lastTiles g) (lastTiles g') \<and>
      (endedAt g \<noteq> None \<longrightarrow> endedAt g' \<noteq> None) \<and> (won g \<longrightarrow> won g') \<and>
      (endedOk g \<longrightarrow> endedOk g'))"

lemma tileLe_refl [simp]: "tileLe t t"
  by (simp add: tileLe_def)

lemma tilesLe_refl [simp]: "list_all2 tileLe ts ts"
  by (simp add: list_all2_refl)

lemma tileLe_trans: "tileLe a b \<Longrightarrow> tileLe b c \<Longrightarrow> tileLe a c"
  by (simp add: tileLe_def)

lemma tilesLe_trans: "list_all2 tileLe a b \<Longrightarrow> list_all2 tileLe b c \<Longrightarrow> list_all2 tileLe a c"
  using list_all2_trans[of tileLe tileLe tileLe a b c] tileLe_trans by blast

lemma tilesLe_click: "list_all2 tileLe ts (ts[idx := (ts ! idx)\<lparr>clicked := True\<rparr>])"
proof (cases "idx < length ts")
  case True
  then show ?thesis
    by (auto simp: list_all2_conv_all_nth nth_list_update tileLe_def)
next
  case False
  then show ?thesis by (simp add: list_update_beyond)
qed

lemma tilesLe_shown:
  assumes "list_all2 tileLe a b" "\<exists>t \<in> set a. clicked t \<and> isMine t"
  shows "\<exists>t \<in> set b. clicked t \<and> isMine t"
proof -
  from assms(2) obtain i where i: "i < length a" "clicked (a ! i)" "isMine (a ! i)"
    by (auto simp: in_set_conv_nth)
  from assms(1) i(1) have "tileLe (a ! i) (b ! i)" "i < length b"
    by (auto simp: list_all2_conv_all_nth)
  with i have "clicked (b ! i) \<and> isMine (b ! i)" "b ! i \<in> set b"
    by (auto simp: tileLe_def isMine_def)
  then show ?thesis by blast
qed

lemma update_simps [simp]:
  "lastTiles (g\<lparr>endedAt := v\<rparr>) = lastTiles g"
  "okGame (g\<lparr>endedAt := v\<rparr>) = okGame g"
  "mineShown (g\<lparr>endedAt := v\<rparr>) = mineShown g"
  "lastTiles (g\<lparr>flags := n\<rparr>) = lastTiles g"
  "okGame (g\<lparr>flags := n\<rparr>) = okGame g"
  "mineShown (g\<lparr>flags := n\<rparr>) = mineShown g"
  "lastTiles (g\<lparr>endedAt := v, won := b\<rparr>) = lastTiles g"
  "okGame (g\<lparr>endedAt := v, won := b\<rparr>) = okGame g"
  by (simp_all add: lastTiles_def okGame_def mineShown_def)

lemma ext_refl: "okGame g \<Longrightarrow> history g \<noteq> [] \<Longrightarrow> ext g g"
  by (simp add: ext_def)

lemma ext_trans:
  assumes "ext a b" "ext b c"
  shows "ext a c"
proof -
  have "list_all2 tileLe (lastTiles a) (lastTiles c)"
    using assms by (auto simp: ext_def intro: tilesLe_trans)
  then show ?thesis using assms by (simp add: ext_def)
qed

lemma ext_okGame: "ext g g' \<Longrightarrow> okGame g'"
  and ext_history: "ext g g' \<Longrightarrow> history g' \<noteq> []"
  and ext_width: "ext g g' \<Longrightarrow> width g' = width g"
  and ext_height: "ext g g' \<Longrightarrow> height g' = height g"
  and ext_tiles: "ext g g' \<Longrightarrow> list_all2 tileLe (lastTiles g) (lastTiles g')"
  by (simp_all add: ext_def)

lemma ext_pushTurn:
  "okGame g \<Longrightarrow> history g \<noteq> [] \<Longrightarrow> ext g (pushTurn g x y f now (lastTiles g))"
  by (simp add: ext_def okGame_pushTurn lastTiles_length endedOk_def mineShown_def)

lemma ext_click:
  assumes "okGame g" "history g \<noteq> []"
  shows "ext g (setTile (length (history g) - 1) idx ((lastTiles g ! idx)\<lparr>clicked := True\<rparr>) g)"
proof -
  let ?g = "setTile (length (history g) - 1) idx ((lastTiles g ! idx)\<lparr>clicked := True\<rparr>) g"
  have t: "list_all2 tileLe (lastTiles g) (lastTiles ?g)"
    using assms by (simp add: lastTiles_setTile tilesLe_click)
  then have "mineShown g \<Longrightarrow> mineShown ?g"
    unfolding mineShown_def by (rule tilesLe_shown)
  then show ?thesis
    using assms t by (auto simp: ext_def okGame_setTile endedOk_def)
qed

lemma ext_click_mine:
  assumes "okGame g" "history g \<noteq> []" "idx < width g * height g"
    "tile_value (lastTiles g ! idx) = 9"
  shows "ext g ((setTile (length (history g) - 1) idx ((lastTiles g ! idx)\<lparr>clicked := True\<rparr>) g)
                  \<lparr>endedAt := Some now\<rparr>)"
proof -
  let ?g = "setTile (length (history g) - 1) idx ((lastTiles g ! idx)\<lparr>clicked := True\<rparr>) g"
  have e: "ext g ?g" using assms(1,2) by (rule ext_click)
  have len: "idx < length (lastTiles g)" using assms by (simp add: lastTiles_length)
  have "lastTiles ?g = (lastTiles g)[idx := (lastTiles g ! idx)\<lparr>clicked := True\<rparr>]"
    using assms(2) by (rule lastTiles_setTile) simp
  then have "mineShown ?g"
    unfolding mineShown_def using set_update_memI[OF len] assms(4)
    by (auto simp: isMine_def intro!: bexI[of _ "(lastTiles g ! idx)\<lparr>clicked := True\<rparr>"])
  then show ?thesis
    using e by (simp add: ext_def endedOk_def)
qed

lemma ext_checkWin: "okGame g \<Longrightarrow> history g \<noteq> [] \<Longrightarrow> ext g (checkWin n now g)"
  by (simp add: ext_def) (simp add: checkWin_def End_def Let_def endedOk_def mineShown_def lastTiles_def)

lemma dispatch_ext:
  assumes cn: "\<And>g2 g3. okGame g2 \<Longrightarrow> history g2 \<noteq> [] \<Longrightarrow> cn g2 = Some g3 \<Longrightarrow> ext g2 g3"
    and ok: "okGame g1" "history g1 \<noteq> []"
    and n: "n = length (history g1) - 1"
    and idx: "idx < width g1 * height g1"
    and t: "t = lastTiles g1 ! idx"
    and d: "dispatch cn now n idx t False x y g1 = Some g3"
  shows "ext g1 g3"
proof -
  let ?g2 = "setTile n idx (t\<lparr>clicked := True\<rparr>) g1"
  have e2: "ext g1 ?g2" unfolding n t using ok by (rule ext_click)
  have ok2: "okGame ?g2" "history ?g2 \<noteq> []" using ok by (simp_all add: okGame_setTile)
  have self: "ext g1 g1" using ok by (rule ext_refl)
  show ?thesis
  proof (cases "clicked t")
    case True
    then have "cn g1 = Some g3 \<or> g3 = g1"
      using d by (auto simp: dispatch_def split: if_splits)
    then show ?thesis using cn[OF ok] self by auto
  next
    case False
    show ?thesis
    proof (cases "flagged t")
      case True
      then have "g3 = g1" using d \<open>\<not> clicked t\<close> by (simp add: dispatch_def)
      then show ?thesis using self by simp
    next
      case unflagged: False
      consider (mine) "tile_value t = 9" | (zero) "tile_value t = 0" | (other) "tile_value t \<noteq> 9" "tile_value t \<noteq> 0"
        by blast
      then show ?thesis
      proof cases
        case mine
        then have "g3 = ?g2\<lparr>endedAt := Some now\<rparr>"
          using d False unflagged by (simp add: dispatch_def)
        then show ?thesis
          using ext_click_mine[OF ok idx, of now] mine by (simp add: n t)
      next
        case zero
        then have "cn ?g2 = Some g3"
          using d False unflagged by (simp add: dispatch_def)
        then have "ext ?g2 g3" using cn ok2 by blast
        with e2 show ?thesis by (rule ext_trans)
      next
        case other
        then have "g3 = ?g2"
          using d False unflagged by (auto simp: dispatch_def)
        then show ?thesis using e2 by simp
      qed
    qed
  qed
qed

lemma clickLoop_ext:
  assumes IH: "\<And>g x' y' g' e. okGame g \<Longrightarrow> history g \<noteq> [] \<Longrightarrow> x' < width g \<Longrightarrow> y' < height g \<Longrightarrow>
      ClickTile k rnd now g x' y' False = Some (g', e) \<Longrightarrow> ext g g'"
  shows "okGame g \<Longrightarrow> history g \<noteq> [] \<Longrightarrow> clickLoop k rnd now snap x y os g = Some g' \<Longrightarrow> ext g g'"
proof (induction os arbitrary: g)
  case Nil
  then show ?case by (simp add: ext_refl)
next
  case (Cons ji rest)
  obtain j i where ji: "ji = (j, i)" by (cases ji)
  let ?x = "nat (int x + i)" and ?y = "nat (int y + j)"
  show ?case
  proof (cases "clickLoop k rnd now snap x y (ji # rest) g = clickLoop k rnd now snap x y rest g")
    case True
    then show ?thesis using Cons by simp
  next
    case False
    then have inb: "?x < width g" "?y < height g"
      and call: "\<exists>g1 e. ClickTile k rnd now g ?x ?y False = Some (g1, e) \<and>
                     clickLoop k rnd now snap x y rest g1 = Some g'"
      using Cons.prems(3) unfolding ji clickLoop_Cons
      by (auto split: if_splits option.splits)
    then obtain g1 e where g1: "ClickTile k rnd now g ?x ?y False = Some (g1, e)"
      and rest: "clickLoop k rnd now snap x y rest g1 = Some g'" by blast
    have e1: "ext g g1" using IH[OF Cons.prems(1,2) inb g1] .
    then have "ext g1 g'"
      using Cons.IH[OF _ _ rest] by (simp add: ext_okGame ext_history)
    with e1 show ?thesis by (rule ext_trans)
  qed
qed

lemma ClickTile_ext_Suc:
  assumes IHL: "\<And>g snap x y os g'. okGame g \<Longrightarrow> history g \<noteq> [] \<Longrightarrow>
      clickLoop k rnd now snap x y os g = Some g' \<Longrightarrow> ext g g'"
    and ok: "okGame g" "history g \<noteq> []" and inb: "x < width g" "y < height g"
    and c: "ClickTile (Suc k) rnd now g x y False = Some (g', e)"
  shows "ext g g'"
proof -
  let ?g1 = "pushTurn g x y False now (lastTiles g)"
  have e1: "ext g ?g1" using ok by (rule ext_pushTurn)
  have ok1: "okGame ?g1" "history ?g1 \<noteq> []" using e1 by (simp_all add: ext_okGame)
  show ?thesis
  proof (cases "endedAt g = None")
    case False
    then have "g' = ?g1" using c inb ok by (auto simp: ClickTile_Suc newTiles_later)
    then show ?thesis using e1 by simp
  next
    case True
    then obtain g3 where d: "dispatch (\<lambda>g'. clickNeighbors k rnd now g' x y) now (length (history g))
        (index16 g x y) (lastTiles g ! index16 g x y) False x y ?g1 = Some g3"
      and g': "g' = checkWin (length (history g)) now g3"
      using c inb ok by (auto simp: ClickTile_Suc newTiles_later split: option.splits)
    have "ext ?g1 g3"
    proof (rule dispatch_ext[OF _ ok1 _ _ _ d])
      show "length (history g) = length (history ?g1) - 1" by simp
      show "index16 g x y < width ?g1 * height ?g1" using ok inb by (simp add: index16_less)
      show "lastTiles g ! index16 g x y = lastTiles ?g1 ! index16 g x y" by simp
    qed (simp add: IHL)
    moreover from this have "ext g3 g'" unfolding g'
      by (intro ext_checkWin) (simp_all add: ext_okGame ext_history)
    ultimately show ?thesis using e1 by (blast intro: ext_trans)
  qed
qed

lemma ClickTile_ext:
  "okGame g \<Longrightarrow> history g \<noteq> [] \<Longrightarrow> x < width g \<Longrightarrow> y < height g \<Longrightarrow>
   ClickTile k rnd now g x y False = Some (g', e) \<Longrightarrow> ext g g'"
proof (induction k arbitrary: g x y g' e)
  case 0
  then show ?case by simp
next
  case (Suc k)
  show ?case
    by (rule ClickTile_ext_Suc[OF clickLoop_ext[OF Suc.IH] Suc.prems]) assumption+
qed

lemma clickNeighbors_ext:
  "okGame g \<Longrightarrow> history g \<noteq> [] \<Longrightarrow> clickNeighbors k rnd now g x y = Some g' \<Longrightarrow> ext g g'"
  using clickLoop_ext[OF ClickTile_ext] by simp

section \<open>A move after its turn is stored\<close>

text \<open>
  The rest of \<^verbatim>\<open>ClickTile\<close> once the new turn is in the history: the test of
  \<^verbatim>\<open>endedAt\<close>, the case distinction and the win check.
\<close>

definition moveBody :: "nat \<Rightarrow> (nat \<times> nat) list \<Rightarrow> nat \<Rightarrow> nat \<Rightarrow> nat \<Rightarrow> bool \<Rightarrow> Game \<Rightarrow> (Game \<times> error option) option" where
  "moveBody k rnd now x y flag g1 =
     (if endedAt g1 \<noteq> None then Some (g1, Some GameNotActive)
      else
        (case dispatch (\<lambda>g'. clickNeighbors k rnd now g' x y) now (length (history g1) - 1)
                (index16 g1 x y) (lastTiles g1 ! index16 g1 x y) flag x y g1 of
           None \<Rightarrow> None
         | Some g3 \<Rightarrow> Some (checkWin (length (history g1) - 1) now g3, None)))"

lemma ClickTile_moveBody:
  "ClickTile (Suc k) rnd now g x y flag =
     (if width g \<le> x then Some (g, Some XTooLarge)
      else if height g \<le> y then Some (g, Some YTooLarge)
      else
        (case newTiles rnd g x y of
           None \<Rightarrow> None
         | Some ts \<Rightarrow> moveBody k rnd now x y flag (pushTurn g x y flag now ts)))"
  by (simp add: ClickTile_Suc moveBody_def index16_def split: option.split)

lemma moveBody_ext:
  assumes ok: "okGame g1" "history g1 \<noteq> []" and inb: "x < width g1" "y < height g1"
    and m: "moveBody k rnd now x y False g1 = Some (g', e)"
  shows "ext g1 g'"
proof (cases "endedAt g1 = None")
  case False
  then show ?thesis using m ok by (simp add: moveBody_def ext_refl)
next
  case True
  then obtain g3 where d: "dispatch (\<lambda>g'. clickNeighbors k rnd now g' x y) now
        (length (history g1) - 1) (index16 g1 x y) (lastTiles g1 ! index16 g1 x y) False x y g1 = Some g3"
    and g': "g' = checkWin (length (history g1) - 1) now g3"
    using m by (auto simp: moveBody_def split: option.splits)
  have "ext g1 g3"
    by (rule dispatch_ext[OF _ ok refl index16_less[OF ok(1) inb] refl d])
       (rule clickNeighbors_ext)
  moreover from this have "ext g3 g'" unfolding g'
    by (intro ext_checkWin) (simp_all add: ext_okGame ext_history)
  ultimately show ?thesis by (rule ext_trans)
qed

section \<open>Counting tiles\<close>

lemma count_update_same:
  "i < length xs \<Longrightarrow> P x = P (xs ! i) \<Longrightarrow> length (filter P (xs[i := x])) = length (filter P xs)"
  by (induction xs arbitrary: i) (auto split: nat.splits)

lemma count_update_set:
  "i < length xs \<Longrightarrow> \<not> P (xs ! i) \<Longrightarrow> P x \<Longrightarrow> length (filter P (xs[i := x])) = Suc (length (filter P xs))"
  by (induction xs arbitrary: i) (auto split: nat.splits)

lemma count_update_clear:
  "i < length xs \<Longrightarrow> P (xs ! i) \<Longrightarrow> \<not> P x \<Longrightarrow> Suc (length (filter P (xs[i := x]))) = length (filter P xs)"
  by (induction xs arbitrary: i) (auto split: nat.splits)

lemma count_all2_eq:
  "list_all2 R xs ys \<Longrightarrow> (\<And>a b. R a b \<Longrightarrow> P a = P b) \<Longrightarrow> length (filter P xs) = length (filter P ys)"
  by (induction rule: list_all2_induct) auto

lemma count_all2_le:
  "list_all2 R xs ys \<Longrightarrow> (\<And>a b. R a b \<Longrightarrow> P b \<Longrightarrow> P a) \<Longrightarrow> length (filter P ys) \<le> length (filter P xs)"
  by (induction rule: list_all2_induct) auto

lemma count_all2_less:
  assumes "list_all2 R xs ys" "\<And>a b. R a b \<Longrightarrow> P b \<Longrightarrow> P a" "i < length xs" "P (xs ! i)" "\<not> P (ys ! i)"
  shows "length (filter P ys) < length (filter P xs)"
  using assms(1,3,4,5)
proof (induction arbitrary: i rule: list_all2_induct)
  case Nil
  then show ?case by simp
next
  case (Cons x xs y ys)
  have le: "length (filter P ys) \<le> length (filter P xs)"
    using Cons.hyps(2) assms(2) by (rule count_all2_le)
  show ?case
  proof (cases i)
    case 0
    then show ?thesis using Cons.prems le by simp
  next
    case (Suc i')
    then have "length (filter P ys) < length (filter P xs)"
      using Cons.IH[of i'] Cons.prems by simp
    then show ?thesis using assms(2)[OF Cons.hyps(1)] by auto
  qed
qed

section \<open>Placing the mines\<close>

text \<open>
  The invariant of the placement loop: \<open>n\<close> counts the mines placed so far, the tile of
  the first click holds none, and every tile is an untouched tile with value 0 or 9.
\<close>

definition placed :: "Game \<Rightarrow> nat \<Rightarrow> nat \<Rightarrow> tile list \<Rightarrow> bool" where
  "placed g idx0 n ts =
     (length ts = width g * height g \<and> n = length (filter isMine ts) \<and> n \<le> mines g \<and>
      \<not> isMine (ts ! idx0) \<and>
      (\<forall>t \<in> set ts. (tile_value t = 0 \<or> tile_value t = 9) \<and> \<not> flagged t \<and> \<not> clicked t))"

lemma placed_start:
  "okGame g \<Longrightarrow> x0 < width g \<Longrightarrow> y0 < height g \<Longrightarrow>
   placed g (width g * y0 + x0) 0 (replicate ((height g * width g) mod 65536) zero_tile)"
  using cell_index[of x0 "width g" y0 "height g"]
  by (simp add: placed_def board_size_mod zero_tile_def isMine_def)

lemma placed_mine:
  assumes p: "placed g idx0 n ts" and n: "n < mines g" and ok: "okGame g"
    and idx: "idx < width g * height g" "idx \<noteq> idx0" "tile_value (ts ! idx) \<noteq> 9"
  shows "placed g idx0 ((n + 1) mod 65536) (ts[idx := (ts ! idx)\<lparr>tile_value := 9\<rparr>])"
proof -
  have len: "idx < length ts" using p idx by (simp add: placed_def)
  have "mines g \<le> 62500" using ok board_size[of g] by (simp add: okGame_def)
  then have n': "(n + 1) mod 65536 = Suc n" using n by simp
  have cnt: "length (filter isMine (ts[idx := (ts ! idx)\<lparr>tile_value := 9\<rparr>])) = Suc (length (filter isMine ts))"
    using len idx(3) by (intro count_update_set) (simp_all add: isMine_def)
  have old: "ts ! idx \<in> set ts" using len by simp
  have "\<forall>t \<in> set (ts[idx := (ts ! idx)\<lparr>tile_value := 9\<rparr>]).
          (tile_value t = 0 \<or> tile_value t = 9) \<and> \<not> flagged t \<and> \<not> clicked t"
    using p old by (auto simp: placed_def dest!: subsetD[OF set_update_subset_insert])
  then show ?thesis
    using p n idx cnt unfolding n' by (simp add: placed_def)
qed

lemma placeMines_placed:
  assumes ok: "okGame g" and inb: "x0 < width g" "y0 < height g"
  shows "placed g (width g * y0 + x0) n ts \<Longrightarrow> placeMines rnd g x0 y0 n ts = Some ts' \<Longrightarrow>
         placed g (width g * y0 + x0) (mines g) ts'"
proof (induction rnd arbitrary: n ts)
  case Nil
  then show ?case by (auto simp: placed_def split: if_splits)
next
  case (Cons d rnd)
  obtain rx ry where d: "d = (rx, ry)" by (cases d)
  let ?x = "rx mod width g" and ?y = "ry mod height g"
  have xy: "?x < width g" "?y < height g" using ok by (simp_all add: okGame_def)
  have i: "index16 g ?x ?y = width g * ?y + ?x" using ok xy by (rule index16_eq)
  show ?case
  proof (cases "n < mines g")
    case False
    then show ?thesis using Cons.prems by (auto simp: d placed_def)
  next
    case n: True
    show ?thesis
    proof (cases "?x = x0 \<and> ?y = y0")
      case True
      then have "placeMines rnd g x0 y0 n ts = Some ts'"
        using Cons.prems(2) n by (simp add: d)
      then show ?thesis using Cons.IH Cons.prems(1) by blast
    next
      case other: False
      then have ne: "width g * ?y + ?x \<noteq> width g * y0 + x0"
        using cell_index_inj[OF xy(1) inb(1)] by blast
      show ?thesis
      proof (cases "tile_value (ts ! (width g * ?y + ?x)) \<noteq> 9")
        case True
        then have "placeMines rnd g x0 y0 ((n + 1) mod 65536)
            (ts[width g * ?y + ?x := (ts ! (width g * ?y + ?x))\<lparr>tile_value := 9\<rparr>]) = Some ts'"
          using Cons.prems(2) n other by (simp add: d i Let_def)
        moreover have "placed g (width g * y0 + x0) ((n + 1) mod 65536)
            (ts[width g * ?y + ?x := (ts ! (width g * ?y + ?x))\<lparr>tile_value := 9\<rparr>])"
          using Cons.prems(1) n ok cell_index[OF xy] ne True by (rule placed_mine)
        ultimately show ?thesis using Cons.IH by blast
      next
        case False
        then have "placeMines rnd g x0 y0 n ts = Some ts'"
          using Cons.prems(2) n other by (simp add: d i Let_def)
        then show ?thesis using Cons.IH Cons.prems(1) by blast
      qed
    qed
  qed
qed

section \<open>Numbering the tiles\<close>

text \<open>
  Numbering one tile changes that tile only, and raises its value by at most the number
  of offsets other than \<open>(0, 0)\<close>.
\<close>

definition bumped :: "nat \<Rightarrow> nat \<Rightarrow> tile list \<Rightarrow> tile list \<Rightarrow> bool" where
  "bumped idx c ts ts' =
     (length ts' = length ts \<and> (\<forall>k. k \<noteq> idx \<longrightarrow> ts' ! k = ts ! k) \<and>
      flagged (ts' ! idx) = flagged (ts ! idx) \<and> clicked (ts' ! idx) = clicked (ts ! idx) \<and>
      tile_value (ts' ! idx) \<le> tile_value (ts ! idx) + c)"

lemma bumped_refl: "bumped idx 0 ts ts"
  by (simp add: bumped_def)

lemma bumped_trans: "bumped idx a ts ts1 \<Longrightarrow> bumped idx b ts1 ts2 \<Longrightarrow> bumped idx (a + b) ts ts2"
  by (auto simp: bumped_def)

lemma bumped_incr:
  assumes "idx < length ts"
  shows "bumped idx 1 ts (ts[idx := (ts ! idx)\<lparr>tile_value := (tile_value (ts ! idx) + 1) mod 256\<rparr>])"
proof -
  have "(tile_value (ts ! idx) + 1) mod 256 \<le> tile_value (ts ! idx) + 1" by simp
  then show ?thesis using assms by (simp add: bumped_def)
qed

lemma countStep_bumped:
  assumes "nat (w * int tileX + 0) = nat (w * int tileX)" "nat (w * int tileY + int tileX) < length ts"
  shows "bumped (nat (w * int tileY + int tileX)) (if ji = (0, 0) then 0 else 1) ts
           (countStep w h tileX tileY ji ts)"
proof -
  let ?idx = "nat (w * int tileY + int tileX)"
  have "countStep w h tileX tileY ji ts = ts \<or>
        (ji \<noteq> (0, 0) \<and> countStep w h tileX tileY ji ts =
           ts[?idx := (ts ! ?idx)\<lparr>tile_value := (tile_value (ts ! ?idx) + 1) mod 256\<rparr>])"
    by (cases ji) (auto simp: countStep_def Let_def)
  then show ?thesis
    using bumped_incr[OF assms(2)] bumped_refl[of ?idx ts]
    by (auto simp: bumped_def)
qed

lemma fold_countStep_bumped:
  "nat (w * int tileY + int tileX) < length ts \<Longrightarrow>
   bumped (nat (w * int tileY + int tileX)) (length (filter (\<lambda>ji. ji \<noteq> (0, 0)) os)) ts
     (fold (countStep w h tileX tileY) os ts)"
proof (induction os arbitrary: ts)
  case Nil
  then show ?case by (simp add: bumped_refl)
next
  case (Cons ji os)
  let ?idx = "nat (w * int tileY + int tileX)"
  let ?ts = "countStep w h tileX tileY ji ts"
  have b1: "bumped ?idx (if ji = (0, 0) then 0 else 1) ts ?ts"
    using Cons.prems by (intro countStep_bumped) simp_all
  then have "?idx < length ?ts" using Cons.prems by (simp add: bumped_def)
  then have "bumped ?idx (length (filter (\<lambda>ji. ji \<noteq> (0, 0)) os)) ?ts
      (fold (countStep w h tileX tileY) os ?ts)" by (rule Cons.IH)
  with b1 have "bumped ?idx ((if ji = (0, 0) then 0 else 1) + length (filter (\<lambda>ji. ji \<noteq> (0, 0)) os)) ts
      (fold (countStep w h tileX tileY) os ?ts)" by (rule bumped_trans)
  then show ?case by (simp split: if_splits)
qed

lemma numberTile_bumped:
  "nat (w * int tileY + int tileX) < length ts \<Longrightarrow>
   bumped (nat (w * int tileY + int tileX)) 8 ts (numberTile w h tileX tileY ts)"
  using fold_countStep_bumped[of w tileY tileX ts offsets h]
  by (auto simp: numberTile_def bumped_def offsets_def)

text \<open>
  The invariant of the numbering loops, \<open>S\<close> being the indices of the tiles already
  visited: the mines are where the placement put them, no mark has changed and the tiles
  not yet visited are untouched.
\<close>

definition numbered :: "tile list \<Rightarrow> nat set \<Rightarrow> tile list \<Rightarrow> bool" where
  "numbered ts0 S ts =
     (length ts = length ts0 \<and>
      (\<forall>k < length ts0. isMine (ts ! k) = isMine (ts0 ! k) \<and> flagged (ts ! k) = flagged (ts0 ! k) \<and>
         clicked (ts ! k) = clicked (ts0 ! k) \<and> (k \<notin> S \<longrightarrow> ts ! k = ts0 ! k)))"

lemma numbered_step:
  assumes n: "numbered ts0 S ts" and idx: "nat (w * int tileY + int tileX) < length ts0"
    "nat (w * int tileY + int tileX) \<notin> S"
    and v: "\<forall>t \<in> set ts0. tile_value t = 0 \<or> tile_value t = 9"
  shows "numbered ts0 (insert (nat (w * int tileY + int tileX)) S) (numberTile w h tileX tileY ts)"
proof -
  let ?idx = "nat (w * int tileY + int tileX)"
  have len: "?idx < length ts" using n idx by (simp add: numbered_def)
  have b: "bumped ?idx 8 ts (numberTile w h tileX tileY ts)" using len by (rule numberTile_bumped)
  have same: "ts ! ?idx = ts0 ! ?idx" using n idx by (simp add: numbered_def)
  have "ts0 ! ?idx \<in> set ts0" using idx by simp
  then have v0: "tile_value (ts ! ?idx) = 0 \<or> tile_value (ts ! ?idx) = 9" using v same by auto
  show ?thesis
  proof (cases "tile_value (ts ! ?idx) = 9")
    case True
    then have "numberTile w h tileX tileY ts = ts" by (simp add: numberTile_def)
    then show ?thesis using n by (auto simp: numbered_def)
  next
    case False
    then have "tile_value (ts ! ?idx) = 0" using v0 by simp
    then have le: "tile_value (numberTile w h tileX tileY ts ! ?idx) \<le> 8"
      using b by (simp add: bumped_def)
    have "\<not> isMine (ts0 ! ?idx)" using False same by (simp add: isMine_def)
    then have m: "isMine (numberTile w h tileX tileY ts ! ?idx) = isMine (ts0 ! ?idx)"
      using le by (simp add: isMine_def)
    show ?thesis
      unfolding numbered_def
    proof (intro conjI allI impI)
      show "length (numberTile w h tileX tileY ts) = length ts0"
        using b n by (simp add: bumped_def numbered_def)
    next
      fix k assume k: "k < length ts0"
      show "isMine (numberTile w h tileX tileY ts ! k) = isMine (ts0 ! k)"
        using b n k m by (cases "k = ?idx") (auto simp: bumped_def numbered_def)
      show "flagged (numberTile w h tileX tileY ts ! k) = flagged (ts0 ! k)"
        using b n k same by (cases "k = ?idx") (auto simp: bumped_def numbered_def)
      show "clicked (numberTile w h tileX tileY ts ! k) = clicked (ts0 ! k)"
        using b n k same by (cases "k = ?idx") (auto simp: bumped_def numbered_def)
      assume "k \<notin> insert ?idx S"
      then show "numberTile w h tileX tileY ts ! k = ts0 ! k"
        using b n k by (auto simp: bumped_def numbered_def)
    qed
  qed
qed

lemma numbered_fold:
  assumes v: "\<forall>t \<in> set ts0. tile_value t = 0 \<or> tile_value t = 9"
  shows "numbered ts0 S ts \<Longrightarrow> distinct (map (\<lambda>(tx, ty). nat (w * int ty + int tx)) cells) \<Longrightarrow>
     \<forall>c \<in> set cells. nat (w * int (snd c) + int (fst c)) < length ts0 \<and>
        nat (w * int (snd c) + int (fst c)) \<notin> S \<Longrightarrow>
     numbered ts0 (S \<union> (\<lambda>(tx, ty). nat (w * int ty + int tx)) ` set cells)
       (fold (\<lambda>(tx, ty). numberTile w h tx ty) cells ts)"
proof (induction cells arbitrary: S ts)
  case Nil
  then show ?case by simp
next
  case (Cons c cells)
  obtain tx ty where c: "c = (tx, ty)" by (cases c)
  let ?i = "nat (w * int ty + int tx)"
  have "numbered ts0 (insert ?i S) (numberTile w h tx ty ts)"
    using Cons.prems(1) _ _ v by (rule numbered_step) (use Cons.prems(3) c in auto)
  moreover have "distinct (map (\<lambda>(tx, ty). nat (w * int ty + int tx)) cells)"
    using Cons.prems(2) by simp
  moreover have "\<forall>c \<in> set cells. nat (w * int (snd c) + int (fst c)) < length ts0 \<and>
        nat (w * int (snd c) + int (fst c)) \<notin> insert ?i S"
    using Cons.prems(2,3) c by (auto simp: image_iff split: prod.splits)
  ultimately have "numbered ts0 (insert ?i S \<union> (\<lambda>(tx, ty). nat (w * int ty + int tx)) ` set cells)
       (fold (\<lambda>(tx, ty). numberTile w h tx ty) cells (numberTile w h tx ty ts))"
    by (rule Cons.IH)
  then show ?case by (simp add: c)
qed

lemma fold_product:
  "fold (\<lambda>a. fold (\<lambda>b. f a b) ys) xs s = fold (\<lambda>(a, b). f a b) (List.product xs ys) s"
  by (induction xs arbitrary: s) (simp_all add: fold_map comp_def)

lemma nat_cell: "nat (int w * int ty + int tx) = w * ty + tx"
  by (simp add: nat_add_distrib nat_mult_distrib)

lemma numberTiles_numbered:
  assumes ok: "okGame g" and len: "length ts = width g * height g"
    and v: "\<forall>t \<in> set ts. tile_value t = 0 \<or> tile_value t = 9"
  shows "\<exists>S. numbered ts S (numberTiles (int (width g)) (int (height g)) ts)"
proof -
  let ?w = "int (width g)"
  let ?ix = "\<lambda>(tx, ty). nat (?w * int ty + int tx)"
  let ?cells = "List.product [0 ..< width g] [0 ..< height g]"
  have "inj_on ?ix (set ?cells)"
    by (rule inj_onI) (auto simp: nat_cell dest: cell_index_inj)
  then have d: "distinct (map ?ix ?cells)"
    by (simp add: distinct_map distinct_product)
  have r: "\<forall>c \<in> set ?cells. nat (?w * int (snd c) + int (fst c)) < length ts \<and>
        nat (?w * int (snd c) + int (fst c)) \<notin> {}"
    using cell_index len by (auto simp: nat_cell)
  have "numbered ts {} ts" by (simp add: numbered_def)
  then have "numbered ts ({} \<union> ?ix ` set ?cells) (fold (\<lambda>(tx, ty). numberTile ?w (int (height g)) tx ty) ?cells ts)"
    using d r by (rule numbered_fold[OF v])
  then show ?thesis
    unfolding numberTiles_def fold_product by auto
qed

lemma generateTiles_facts:
  assumes ok: "okGame g" and inb: "x0 < width g" "y0 < height g"
    and gen: "generateTiles rnd g x0 y0 = Some ts"
  shows "length ts = width g * height g"
    and "length (filter isMine ts) = mines g"
    and "\<not> isMine (ts ! (width g * y0 + x0))"
    and "\<forall>t \<in> set ts. \<not> flagged t \<and> \<not> clicked t"
proof -
  let ?idx0 = "width g * y0 + x0"
  from gen obtain ts1 where
    p: "placeMines rnd g x0 y0 0 (replicate ((height g * width g) mod 65536) zero_tile) = Some ts1"
    and ts: "ts = numberTiles (int (width g)) (int (height g)) ts1"
    by (auto simp: generateTiles_def split: option.splits)
  have pl: "placed g ?idx0 (mines g) ts1"
    using ok inb placed_start[OF ok inb] p by (rule placeMines_placed)
  then have len1: "length ts1 = width g * height g"
    and v: "\<forall>t \<in> set ts1. tile_value t = 0 \<or> tile_value t = 9"
    by (auto simp: placed_def)
  from numberTiles_numbered[OF ok len1 v] obtain S where n: "numbered ts1 S ts"
    unfolding ts by blast
  show len: "length ts = width g * height g" using n len1 by (simp add: numbered_def)
  have "list_all2 (\<lambda>a b. isMine a = isMine b) ts1 ts"
    using n by (simp add: numbered_def list_all2_conv_all_nth)
  then have "length (filter isMine ts1) = length (filter isMine ts)"
    by (rule count_all2_eq)
  then show "length (filter isMine ts) = mines g" using pl by (simp add: placed_def)
  have "?idx0 < length ts1" using cell_index[OF inb] len1 by simp
  then show "\<not> isMine (ts ! ?idx0)" using n pl by (simp add: numbered_def placed_def)
  show "\<forall>t \<in> set ts. \<not> flagged t \<and> \<not> clicked t"
  proof
    fix t assume "t \<in> set ts"
    then obtain k where k: "k < length ts" "t = ts ! k" by (auto simp: in_set_conv_nth)
    then have "k < length ts1" "ts1 ! k \<in> set ts1" using n by (simp_all add: numbered_def)
    then show "\<not> flagged t \<and> \<not> clicked t" using n pl k by (simp add: numbered_def placed_def)
  qed
qed

section \<open>What any move may change\<close>

definition flagsOk :: "Game \<Rightarrow> bool" where
  "flagsOk g = (flags g = length (filter flagged (lastTiles g)))"

definition tileStep :: "tile \<Rightarrow> tile \<Rightarrow> bool" where
  "tileStep t t' = (tile_value t' = tile_value t \<and> (clicked t \<longrightarrow> clicked t'))"

text \<open>\<open>evolves g g'\<close> relates a game with its turn stored to the game after the move.\<close>

definition evolves :: "Game \<Rightarrow> Game \<Rightarrow> bool" where
  "evolves g g' =
     (width g' = width g \<and> height g' = height g \<and> mines g' = mines g \<and>
      startedAt g' = startedAt g \<and> grid g' = grid g \<and> history g' \<noteq> [] \<and> okGame g' \<and>
      length (history g) \<le> length (history g') \<and>
      list_all2 tileStep (lastTiles g) (lastTiles g') \<and>
      (endedAt g \<noteq> None \<longrightarrow> endedAt g' \<noteq> None) \<and> (won g \<longrightarrow> won g') \<and>
      (endedOk g \<longrightarrow> endedOk g') \<and> (flagsOk g \<longrightarrow> flagsOk g'))"

lemma ext_evolves:
  assumes "ext g g'"
  shows "evolves g g'"
proof -
  have t: "list_all2 tileLe (lastTiles g) (lastTiles g')" using assms by (rule ext_tiles)
  then have "list_all2 tileStep (lastTiles g) (lastTiles g')"
    by (rule list_all2_mono) (simp add: tileLe_def tileStep_def)
  moreover have "length (filter flagged (lastTiles g)) = length (filter flagged (lastTiles g'))"
    using t by (rule count_all2_eq) (simp add: tileLe_def)
  ultimately show ?thesis using assms by (simp add: ext_def evolves_def flagsOk_def)
qed

lemma tilesStep_flag: "tile_value t = tile_value (ts ! idx) \<Longrightarrow> clicked t = clicked (ts ! idx) \<Longrightarrow>
   list_all2 tileStep ts (ts[idx := t])"
proof (cases "idx < length ts")
  case True
  assume "tile_value t = tile_value (ts ! idx)" "clicked t = clicked (ts ! idx)"
  then show ?thesis using True
    by (auto simp: list_all2_conv_all_nth nth_list_update tileStep_def)
next
  case False
  then show ?thesis by (simp add: list_update_beyond list_all2_refl tileStep_def)
qed

lemma tilesStep_shown:
  assumes "list_all2 tileStep a b" "\<exists>t \<in> set a. clicked t \<and> isMine t"
  shows "\<exists>t \<in> set b. clicked t \<and> isMine t"
proof -
  from assms(2) obtain i where i: "i < length a" "clicked (a ! i)" "isMine (a ! i)"
    by (auto simp: in_set_conv_nth)
  from assms(1) i(1) have "tileStep (a ! i) (b ! i)" "i < length b"
    by (auto simp: list_all2_conv_all_nth)
  with i have "clicked (b ! i) \<and> isMine (b ! i)" "b ! i \<in> set b"
    by (auto simp: tileStep_def isMine_def)
  then show ?thesis by blast
qed

lemma evolves_flagged:
  assumes ok: "okGame g" "history g \<noteq> []" and idx: "idx < width g * height g"
    and t: "tile_value t = tile_value (lastTiles g ! idx)" "clicked t = clicked (lastTiles g ! idx)"
    and f: "flagsOk g \<longrightarrow> n = length (filter flagged ((lastTiles g)[idx := t]))"
  shows "evolves g ((setTile (length (history g) - 1) idx t g)\<lparr>flags := n\<rparr>)"
proof -
  let ?g = "setTile (length (history g) - 1) idx t g"
  have lt: "lastTiles ?g = (lastTiles g)[idx := t]" using ok(2) by (rule lastTiles_setTile) simp
  have st: "list_all2 tileStep (lastTiles g) (lastTiles ?g)"
    unfolding lt using t by (rule tilesStep_flag)
  then have "mineShown g \<Longrightarrow> mineShown ?g" unfolding mineShown_def by (rule tilesStep_shown)
  then show ?thesis
    using ok st f lt by (auto simp: evolves_def okGame_setTile endedOk_def flagsOk_def)
qed

lemma evolves_checkWin:
  assumes "evolves g g3"
  shows "evolves g (checkWin n now g3)"
proof -
  have "endedOk g3 \<Longrightarrow> endedOk (checkWin n now g3)"
    by (simp add: checkWin_def End_def Let_def endedOk_def mineShown_def lastTiles_def)
  moreover have "flagsOk (checkWin n now g3) = flagsOk g3" by (simp add: flagsOk_def)
  moreover have "won g3 \<Longrightarrow> won (checkWin n now g3)" "endedAt g3 \<noteq> None \<Longrightarrow> endedAt (checkWin n now g3) \<noteq> None"
    by (simp_all add: checkWin_def End_def Let_def)
  ultimately show ?thesis using assms by (auto simp: evolves_def)
qed

lemma evolves_refl: "okGame g \<Longrightarrow> history g \<noteq> [] \<Longrightarrow> evolves g g"
  by (simp add: evolves_def list_all2_refl tileStep_def)

lemma uint16_decrement:
  assumes "Suc c = f" "f \<le> 62500"
  shows "(f + 65535) mod 65536 = c"
proof -
  have "f + 65535 = c + 65536" using assms by simp
  then have "(f + 65535) mod 65536 = c mod 65536" by simp
  then show ?thesis using assms by simp
qed

lemma lastTiles_Nil: "history g = [] \<Longrightarrow> lastTiles g = []"
  by (simp add: lastTiles_def)

lemma moveBody_flag:
  assumes ok: "okGame g1" "history g1 \<noteq> []" and inb: "x < width g1" "y < height g1"
    and m: "moveBody k rnd now x y True g1 = Some (g', e)"
  shows "evolves g1 g'"
proof (cases "endedAt g1 = None")
  case False
  then show ?thesis using m ok by (simp add: moveBody_def evolves_refl)
next
  case True
  let ?idx = "index16 g1 x y" and ?ts = "lastTiles g1" and ?n = "length (history g1) - 1"
  let ?t = "?ts ! ?idx"
  have idx: "?idx < width g1 * height g1" using ok(1) inb by (rule index16_less)
  then have len: "?idx < length ?ts" using ok by (simp add: lastTiles_length)
  have size: "length ?ts \<le> 62500" using ok board_size[of g1] by (simp add: lastTiles_length)
  from True obtain g3 where d: "dispatch (\<lambda>g'. clickNeighbors k rnd now g' x y) now ?n ?idx ?t True x y g1 = Some g3"
    and g': "g' = checkWin ?n now g3"
    using m by (auto simp: moveBody_def split: option.splits)
  have "evolves g1 g3"
  proof (cases "clicked ?t")
    case True
    then have "g3 = g1" using d by (simp add: dispatch_def)
    then show ?thesis using ok by (simp add: evolves_refl)
  next
    case unclicked: False
    show ?thesis
    proof (cases "flagged ?t")
      case False
      then have g3: "g3 = (setTile ?n ?idx (?t\<lparr>flagged := True\<rparr>) g1)\<lparr>flags := (flags g1 + 1) mod 65536\<rparr>"
        using d unclicked by (simp add: dispatch_def)
      have c: "length (filter flagged (?ts[?idx := ?t\<lparr>flagged := True\<rparr>])) = Suc (length (filter flagged ?ts))"
        using len False by (intro count_update_set) simp_all
      have "length (filter flagged (?ts[?idx := ?t\<lparr>flagged := True\<rparr>])) \<le> length (?ts[?idx := ?t\<lparr>flagged := True\<rparr>])"
        by (rule length_filter_le)
      then have "flagsOk g1 \<longrightarrow> (flags g1 + 1) mod 65536 = length (filter flagged (?ts[?idx := ?t\<lparr>flagged := True\<rparr>]))"
        using c size by (simp add: flagsOk_def)
      then show ?thesis unfolding g3 using ok idx by (intro evolves_flagged) simp_all
    next
      case True
      then have g3: "g3 = (setTile ?n ?idx (?t\<lparr>flagged := False\<rparr>) g1)\<lparr>flags := (flags g1 + 65535) mod 65536\<rparr>"
        using d unclicked by (simp add: dispatch_def)
      have c: "Suc (length (filter flagged (?ts[?idx := ?t\<lparr>flagged := False\<rparr>]))) = length (filter flagged ?ts)"
        using len True by (intro count_update_clear) simp_all
      have "length (filter flagged ?ts) \<le> 62500"
        by (rule le_trans[OF length_filter_le size])
      then have "flagsOk g1 \<longrightarrow> (flags g1 + 65535) mod 65536 = length (filter flagged (?ts[?idx := ?t\<lparr>flagged := False\<rparr>]))"
        using uint16_decrement[OF c] by (simp add: flagsOk_def)
      then show ?thesis unfolding g3 using ok idx by (intro evolves_flagged) simp_all
    qed
  qed
  then show ?thesis unfolding g' by (rule evolves_checkWin)
qed

lemma moveBody_evolves:
  "okGame g1 \<Longrightarrow> history g1 \<noteq> [] \<Longrightarrow> x < width g1 \<Longrightarrow> y < height g1 \<Longrightarrow>
   moveBody k rnd now x y flag g1 = Some (g', e) \<Longrightarrow> evolves g1 g'"
  by (cases flag) (auto intro: moveBody_flag ext_evolves moveBody_ext)

lemma newTiles_facts:
  assumes ok: "okGame g" and inb: "x < width g" "y < height g"
    and nt: "newTiles rnd g x y = Some ts"
  shows "length ts = width g * height g"
    and "history g \<noteq> [] \<Longrightarrow> ts = lastTiles g"
    and "history g = [] \<Longrightarrow> length (filter isMine ts) = mines g"
    and "history g = [] \<Longrightarrow> \<not> isMine (ts ! (width g * y + x))"
    and "history g = [] \<Longrightarrow> \<forall>t \<in> set ts. \<not> flagged t \<and> \<not> clicked t"
proof -
  show later: "history g \<noteq> [] \<Longrightarrow> ts = lastTiles g"
    using nt ok by (simp add: newTiles_later)
  have first: "history g = [] \<Longrightarrow> generateTiles rnd g x y = Some ts"
    using nt by (simp add: newTiles_def)
  show "length ts = width g * height g"
    using later first generateTiles_facts(1)[OF ok inb] lastTiles_length[OF ok] by (cases "history g = []") auto
  show "history g = [] \<Longrightarrow> length (filter isMine ts) = mines g"
    using first generateTiles_facts(2)[OF ok inb] by blast
  show "history g = [] \<Longrightarrow> \<not> isMine (ts ! (width g * y + x))"
    using first generateTiles_facts(3)[OF ok inb] by blast
  show "history g = [] \<Longrightarrow> \<forall>t \<in> set ts. \<not> flagged t \<and> \<not> clicked t"
    using first generateTiles_facts(4)[OF ok inb] by blast
qed

text \<open>
  Every call of \<^verbatim>\<open>ClickTile\<close> that returns either rejects its coordinates and leaves the
  game as it is, or stores a turn with new tiles and moves on from there.
\<close>

lemma ClickTile_cases:
  assumes "ClickTile k rnd now g x y flag = Some (g', e)"
  obtains (outside) "width g \<le> x \<or> height g \<le> y" "g' = g" "e = Some XTooLarge \<or> e = Some YTooLarge"
  | (inside) k' ts where "k = Suc k'" "x < width g" "y < height g" "newTiles rnd g x y = Some ts"
      "moveBody k' rnd now x y flag (pushTurn g x y flag now ts) = Some (g', e)"
proof (cases k)
  case 0
  then show ?thesis using assms by simp
next
  case (Suc k')
  then show ?thesis
    using assms that unfolding Suc ClickTile_moveBody
    by (auto split: if_splits option.splits)
qed

section \<open>Invariants of the reachable games\<close>

definition minesOk :: "Game \<Rightarrow> bool" where
  "minesOk g = (history g \<noteq> [] \<longrightarrow> length (filter isMine (lastTiles g)) = mines g)"

definition sound :: "Game \<Rightarrow> bool" where
  "sound g = (okGame g \<and> flagsOk g \<and> endedOk g \<and> minesOk g \<and> grid g = [])"

lemma sound_NewGame: "NewGame w h m now = Inr g \<Longrightarrow> sound g"
proof -
  assume "NewGame w h m now = Inr g"
  then have g: "w \<le> 250" "h \<le> 250" "m + 2 \<le> w * h" "width g = w" "height g = h" "mines g = m"
      "flags g = 0" "history g = []" "endedAt g = None" "grid g = []"
    by (auto simp: NewGame_Inr)
  then have "0 < w" "0 < h" by (auto intro: Nat.gr0I)
  then show ?thesis
    using g by (simp add: sound_def okGame_def flagsOk_def endedOk_def minesOk_def lastTiles_def)
qed

lemma sound_End: "sound g \<Longrightarrow> sound (End g b now)"
  by (simp add: sound_def End_def okGame_def flagsOk_def endedOk_def minesOk_def lastTiles_def)

lemma sound_pushTurn:
  assumes s: "sound g" and inb: "x < width g" "y < height g"
    and nt: "newTiles rnd g x y = Some ts"
  shows "sound (pushTurn g x y flag now ts)"
proof -
  have ok: "okGame g" using s by (simp add: sound_def)
  note f = newTiles_facts[OF ok inb nt]
  have "okGame (pushTurn g x y flag now ts)" using ok f(1) by (rule okGame_pushTurn)
  moreover have "flagsOk (pushTurn g x y flag now ts)"
  proof (cases "history g = []")
    case True
    then have "filter flagged ts = []" using f(5) by (simp add: filter_empty_conv)
    then show ?thesis using s True by (simp add: sound_def flagsOk_def lastTiles_Nil)
  next
    case False
    then show ?thesis using s f(2) by (simp add: sound_def flagsOk_def)
  qed
  moreover have "mineShown g \<Longrightarrow> mineShown (pushTurn g x y flag now ts)"
    using f(2) by (cases "history g = []") (simp_all add: mineShown_def lastTiles_Nil)
  then have "endedOk (pushTurn g x y flag now ts)"
    using s by (auto simp: sound_def endedOk_def)
  moreover have "minesOk (pushTurn g x y flag now ts)"
    using s f(2,3) by (cases "history g = []") (simp_all add: sound_def minesOk_def)
  ultimately show ?thesis using s by (simp add: sound_def)
qed

lemma sound_evolves:
  assumes "sound g" "evolves g g'" "history g \<noteq> []"
  shows "sound g'"
proof -
  have "list_all2 tileStep (lastTiles g) (lastTiles g')" using assms(2) by (simp add: evolves_def)
  then have "length (filter isMine (lastTiles g)) = length (filter isMine (lastTiles g'))"
    by (rule count_all2_eq) (simp add: tileStep_def isMine_def)
  then show ?thesis
    using assms by (simp add: sound_def evolves_def minesOk_def)
qed

lemma sound_ClickTile:
  assumes s: "sound g" and c: "ClickTile k rnd now g x y flag = Some (g', e)"
  shows "sound g'"
  using c
proof (cases rule: ClickTile_cases)
  case outside
  then show ?thesis using s by simp
next
  case (inside k' ts)
  let ?g1 = "pushTurn g x y flag now ts"
  have s1: "sound ?g1" using s inside(2,3,4) by (rule sound_pushTurn)
  then have "evolves ?g1 g'"
    using inside by (intro moveBody_evolves[of ?g1 x y k' rnd now flag g' e]) (simp_all add: sound_def)
  with s1 show ?thesis by (rule sound_evolves) simp
qed

lemma reachable_sound: "reachable g \<Longrightarrow> sound g"
  by (induction rule: reachable.induct) (auto intro: sound_NewGame sound_ClickTile sound_End)

lemma reachable_okGame: "reachable g \<Longrightarrow> okGame g"
  using reachable_sound by (simp add: sound_def)

section \<open>The flag counter\<close>

text \<open>
  C8: in every game reachable from a new one by calls of \<^verbatim>\<open>ClickTile\<close> (and of
  \<^verbatim>\<open>End\<close>), the field \<^verbatim>\<open>flags\<close> is the number of flagged tiles of the current grid.
\<close>

theorem flags_counts_flagged:
  "reachable g \<Longrightarrow> flags g = length (filter flagged (lastTiles g))"
  using reachable_sound[of g] by (simp add: sound_def flagsOk_def)

theorem flags_counts_flagged_witness:
  "reachable rowFlagged \<and> flags rowFlagged = 1 \<and> length (filter flagged (lastTiles rowFlagged)) = 1"
  using flags_counts_flagged[OF reachable_rowFlagged] reachable_rowFlagged
  by (simp add: demo_defs)

section \<open>The first move\<close>

lemma tilesStep_isMine:
  "list_all2 tileStep a b \<Longrightarrow> i < length a \<Longrightarrow> isMine (b ! i) = isMine (a ! i)"
  by (auto simp: list_all2_conv_all_nth tileStep_def isMine_def)

text \<open>
  C1: on a board with no turn yet (a new board, or one that was only force-ended), a call
  of \<^verbatim>\<open>ClickTile\<close> at an in-bounds \<open>(x0, y0)\<close> that returns, flag-toggle or reveal, leaves
  a grid of \<open>width * height\<close> tiles with exactly \<^verbatim>\<open>mines\<close> mines, none of them at
  \<open>(x0, y0)\<close>.
\<close>

theorem first_move_places_mines:
  assumes r: "reachable g" and first: "history g = []"
    and inb: "x0 < width g" "y0 < height g"
    and c: "ClickTile k rnd now g x0 y0 flag = Some (g', e)"
  shows "length (lastTiles g') = width g * height g \<and>
         length (filter isMine (lastTiles g')) = mines g \<and>
         \<not> isMine (lastTiles g' ! index16 g' x0 y0)"
  using c
proof (cases rule: ClickTile_cases)
  case outside
  then show ?thesis using inb by simp
next
  case (inside k' ts)
  let ?g1 = "pushTurn g x0 y0 flag now ts"
  have s: "sound g" using r by (rule reachable_sound)
  then have ok: "okGame g" by (simp add: sound_def)
  note f = newTiles_facts[OF ok inb inside(4)]
  have s1: "sound ?g1" using s inb inside(4) by (rule sound_pushTurn)
  then have ev: "evolves ?g1 g'"
    using inside by (intro moveBody_evolves[of ?g1 x0 y0 k' rnd now flag g' e]) (simp_all add: sound_def)
  then have st: "list_all2 tileStep ts (lastTiles g')" and w: "width g' = width g" and ok': "okGame g'"
    by (simp_all add: evolves_def)
  have len: "length (lastTiles g') = width g * height g"
    using st f(1) by (simp add: list_all2_lengthD[symmetric])
  have "length (filter isMine ts) = length (filter isMine (lastTiles g'))"
    using st by (rule count_all2_eq) (simp add: tileStep_def isMine_def)
  then have cnt: "length (filter isMine (lastTiles g')) = mines g" using f(3) first by simp
  have i: "index16 g' x0 y0 = width g * y0 + x0"
    using index16_eq[OF ok inb] w by (simp add: index16_def)
  have "width g * y0 + x0 < length ts" using cell_index[OF inb] f(1) by simp
  then have "isMine (lastTiles g' ! (width g * y0 + x0)) = isMine (ts ! (width g * y0 + x0))"
    using st by (intro tilesStep_isMine)
  then show ?thesis using len cnt i f(4) first by simp
qed

theorem first_move_places_mines_witness:
  "length (lastTiles (rowGame 0 None [rowTurn1])) = 3 * 1 \<and>
   length (filter isMine (lastTiles (rowGame 0 None [rowTurn1]))) = 1 \<and>
   \<not> isMine (lastTiles (rowGame 0 None [rowTurn1]) ! index16 (rowGame 0 None [rowTurn1]) 1 0)"
  using first_move_places_mines[OF reach_new[OF row_new] _ _ _ row_reveal]
  by (simp add: rowGame_def)

section \<open>Rejected moves\<close>

text \<open>
  C3, as stated, fails for a move rejected because the game has ended: \<^verbatim>\<open>ClickTile\<close>
  stores the turn in the history before it tests \<^verbatim>\<open>endedAt\<close>. After the lost game of
  the row, a further move returns the error and the history has one more turn.
\<close>

theorem rejected_move_is_recorded:
  "reachable rowLost \<and> endedAt rowLost = Some 3 \<and>
   ClickTile (Suc 0) [] 4 rowLost 0 0 False =
     Some (rowLost\<lparr>history := history rowLost @ [rowTurn5]\<rparr>, Some GameNotActive) \<and>
   length (history (rowLost\<lparr>history := history rowLost @ [rowTurn5]\<rparr>)) = 5 \<and>
   length (history rowLost) = 4"
  using reachable_rowLost row_rejected by (simp add: rowLost_def rowGame_def)

lemma moveBody_error:
  "moveBody k rnd now x y flag g1 = Some (g', Some err) \<Longrightarrow>
   err = GameNotActive \<and> endedAt g1 \<noteq> None \<and> g' = g1"
  by (auto simp: moveBody_def split: if_splits option.splits)

lemma JSON_pushTurn: "JSON (pushTurn g x y flag now (lastTiles g)) = JSON g"
  by (simp add: JSON_def)

text \<open>
  C3 (amended): a move rejected for its coordinates leaves the game as it is. A move
  rejected because the game has ended changes nothing but the history, which gains the
  rejected turn; when the board already had a turn, the tiles of the new turn are a copy
  of the current ones and the view is the same as before.
\<close>

theorem rejected_move:
  assumes r: "reachable g" and c: "ClickTile k rnd now g x y flag = Some (g', Some err)"
  shows "if err = GameNotActive
         then endedAt g \<noteq> None \<and> x < width g \<and> y < height g \<and>
           (\<exists>ts. g' = g\<lparr>history := history g @
                    [\<lparr>turn_x = x, turn_y = y, turn_flag = flag, takenAt = now, turn_tiles = ts\<rparr>]\<rparr> \<and>
                 (history g \<noteq> [] \<longrightarrow> ts = lastTiles g \<and> JSON g' = JSON g))
         else g' = g \<and> (width g \<le> x \<or> height g \<le> y)"
  using c
proof (cases rule: ClickTile_cases)
  case outside
  then show ?thesis by auto
next
  case (inside k' ts)
  have ok: "okGame g" using r by (rule reachable_okGame)
  from moveBody_error[OF inside(5)]
  have e: "err = GameNotActive" "endedAt g \<noteq> None" "g' = pushTurn g x y flag now ts"
    by simp_all
  have "history g \<noteq> [] \<Longrightarrow> ts = lastTiles g"
    using newTiles_facts(2)[OF ok inside(2,3,4)] .
  then have "history g \<noteq> [] \<longrightarrow> ts = lastTiles g \<and> JSON g' = JSON g"
    using e(3) by (auto simp: JSON_pushTurn)
  then show ?thesis
    using e inside(2,3) by (auto simp: pushTurn_def)
qed

theorem rejected_move_witness:
  "endedAt rowLost \<noteq> None \<and> (0::nat) < width rowLost \<and> (0::nat) < height rowLost \<and>
   (\<exists>ts. rowLost\<lparr>history := history rowLost @ [rowTurn5]\<rparr> = rowLost\<lparr>history := history rowLost @
            [\<lparr>turn_x = 0, turn_y = 0, turn_flag = False, takenAt = 4, turn_tiles = ts\<rparr>]\<rparr> \<and>
         (history rowLost \<noteq> [] \<longrightarrow> ts = lastTiles rowLost \<and>
            JSON (rowLost\<lparr>history := history rowLost @ [rowTurn5]\<rparr>) = JSON rowLost))"
  using rejected_move[OF reachable_rowLost row_rejected] by simp

section \<open>Win detection\<close>

text \<open>
  \<open>winOk\<close>: once a turn was taken, a game whose current tiles are all revealed or mines
  has ended. The win check of a call reads the tiles of its own turn; these are the
  current tiles unless the cascade stored later turns, and then the call that stored the
  last turn has made the check on the current tiles.
\<close>

definition winOk :: "Game \<Rightarrow> bool" where
  "winOk g =
     (history g \<noteq> [] \<longrightarrow> (\<forall>t \<in> set (lastTiles g). clicked t \<or> isMine t) \<longrightarrow> endedAt g \<noteq> None)"

lemma count_all: "(length (filter P xs) = length xs) = (\<forall>x \<in> set xs. P x)"
proof (induction xs)
  case Nil
  then show ?case by simp
next
  case (Cons x xs)
  show ?case
    using Cons length_filter_le[of P xs] by (auto simp del: length_filter_le)
qed

lemma checkWin_own:
  assumes "history g \<noteq> []"
  shows "winOk (checkWin (length (history g) - 1) now g)"
proof -
  have "turn_tiles (history g ! (length (history g) - 1)) = lastTiles g"
    using assms by (simp add: lastTiles_def last_conv_nth)
  then show ?thesis
    using count_all[of "\<lambda>t. clicked t \<or> 9 = tile_value t" "lastTiles g"]
    by (auto simp: winOk_def checkWin_def End_def Let_def isMine_def)
qed

lemma checkWin_keep: "winOk g \<Longrightarrow> winOk (checkWin n now g)"
  by (auto simp: winOk_def) (simp_all add: checkWin_def End_def Let_def split: if_splits)

lemma dispatch_winOk:
  assumes cn: "\<And>g2 g3. okGame g2 \<Longrightarrow> history g2 \<noteq> [] \<Longrightarrow> cn g2 = Some g3 \<Longrightarrow> g3 = g2 \<or> winOk g3"
    and ok: "okGame g1" "history g1 \<noteq> []"
    and d: "dispatch cn now n idx t flag x y g1 = Some g3"
  shows "length (history g3) = length (history g1) \<or> winOk g3"
proof -
  let ?g2 = "setTile n idx (t\<lparr>clicked := True\<rparr>) g1"
  have ok2: "okGame ?g2" "history ?g2 \<noteq> []" using ok by (simp_all add: okGame_setTile)
  consider (direct) "length (history g3) = length (history g1)"
    | (spread1) "cn g1 = Some g3" | (spread2) "cn ?g2 = Some g3"
    using d by (auto simp: dispatch_def split: if_splits)
  then show ?thesis
  proof cases
    case direct
    then show ?thesis by simp
  next
    case spread1
    then show ?thesis using cn[OF ok] by auto
  next
    case spread2
    then show ?thesis using cn[OF ok2] by auto
  qed
qed

lemma moveBody_winOk_step:
  assumes cn: "\<And>g2 g3. okGame g2 \<Longrightarrow> history g2 \<noteq> [] \<Longrightarrow>
        clickNeighbors k rnd now g2 x y = Some g3 \<Longrightarrow> g3 = g2 \<or> winOk g3"
    and ok: "okGame g1" "history g1 \<noteq> []"
    and m: "moveBody k rnd now x y flag g1 = Some (g', e)"
  shows "winOk g'"
proof (cases "endedAt g1 = None")
  case False
  then show ?thesis using m by (auto simp: moveBody_def winOk_def)
next
  case True
  then obtain g3 where d: "dispatch (\<lambda>g'. clickNeighbors k rnd now g' x y) now
        (length (history g1) - 1) (index16 g1 x y) (lastTiles g1 ! index16 g1 x y) flag x y g1 = Some g3"
    and g': "g' = checkWin (length (history g1) - 1) now g3"
    using m by (auto simp: moveBody_def split: option.splits)
  from dispatch_winOk[OF cn ok d]
  show ?thesis
  proof
    assume l: "length (history g3) = length (history g1)"
    then have "history g3 \<noteq> []" using ok(2) by auto
    then show ?thesis unfolding g' l[symmetric] by (rule checkWin_own)
  next
    assume "winOk g3"
    then show ?thesis unfolding g' by (rule checkWin_keep)
  qed
qed

lemma clickLoop_winOk:
  assumes IH: "\<And>g x' y' g' e. okGame g \<Longrightarrow> history g \<noteq> [] \<Longrightarrow> x' < width g \<Longrightarrow> y' < height g \<Longrightarrow>
      ClickTile k rnd now g x' y' False = Some (g', e) \<Longrightarrow> winOk g'"
  shows "okGame g \<Longrightarrow> history g \<noteq> [] \<Longrightarrow> clickLoop k rnd now snap x y os g = Some g' \<Longrightarrow>
         g' = g \<or> winOk g'"
proof (induction os arbitrary: g)
  case Nil
  then show ?case by simp
next
  case (Cons ji rest)
  obtain j i where ji: "ji = (j, i)" by (cases ji)
  let ?x = "nat (int x + i)" and ?y = "nat (int y + j)"
  show ?case
  proof (cases "clickLoop k rnd now snap x y (ji # rest) g = clickLoop k rnd now snap x y rest g")
    case True
    then show ?thesis using Cons by simp
  next
    case False
    then have inb: "?x < width g" "?y < height g"
      and call: "\<exists>g1 e. ClickTile k rnd now g ?x ?y False = Some (g1, e) \<and>
                     clickLoop k rnd now snap x y rest g1 = Some g'"
      using Cons.prems(3) unfolding ji clickLoop_Cons
      by (auto split: if_splits option.splits)
    then obtain g1 e where g1: "ClickTile k rnd now g ?x ?y False = Some (g1, e)"
      and rest: "clickLoop k rnd now snap x y rest g1 = Some g'" by blast
    have w1: "winOk g1" using IH[OF Cons.prems(1,2) inb g1] .
    have "ext g g1" using Cons.prems(1,2) inb g1 by (rule ClickTile_ext)
    then have "g' = g1 \<or> winOk g'"
      using Cons.IH[OF _ _ rest] by (simp add: ext_okGame ext_history)
    then show ?thesis using w1 by auto
  qed
qed

lemma ClickTile_winOk:
  "okGame g \<Longrightarrow> history g \<noteq> [] \<Longrightarrow> x < width g \<Longrightarrow> y < height g \<Longrightarrow>
   ClickTile k rnd now g x y False = Some (g', e) \<Longrightarrow> winOk g'"
proof (induction k arbitrary: g x y g' e)
  case 0
  then show ?case by simp
next
  case (Suc k)
  let ?g1 = "pushTurn g x y False now (lastTiles g)"
  have m: "moveBody k rnd now x y False ?g1 = Some (g', e)"
    using Suc.prems by (simp add: ClickTile_moveBody newTiles_later)
  have ok1: "okGame ?g1" "history ?g1 \<noteq> []"
    using Suc.prems(1,2) by (simp_all add: okGame_pushTurn lastTiles_length)
  show ?case
  proof (rule moveBody_winOk_step[OF _ ok1 m])
    fix g2 g3
    assume a: "okGame g2" "history g2 \<noteq> []" "clickNeighbors k rnd now g2 x y = Some g3"
    then have "clickLoop k rnd now (lastTiles g2) x y offsets g2 = Some g3" by simp
    with a(1,2) show "g3 = g2 \<or> winOk g3"
      by - (rule clickLoop_winOk[OF Suc.IH], assumption+)
  qed
qed

lemma moveBody_winOk:
  assumes ok: "okGame g1" "history g1 \<noteq> []"
    and m: "moveBody k rnd now x y flag g1 = Some (g', e)"
  shows "winOk g'"
proof (rule moveBody_winOk_step[OF _ ok m])
  fix g2 g3
  assume a: "okGame g2" "history g2 \<noteq> []" "clickNeighbors k rnd now g2 x y = Some g3"
  then have "clickLoop k rnd now (lastTiles g2) x y offsets g2 = Some g3" by simp
  with a(1,2) show "g3 = g2 \<or> winOk g3"
    by - (rule clickLoop_winOk[OF ClickTile_winOk], assumption+)
qed


text \<open>The row won by one reveal at \<open>(0, 0)\<close>, which spreads to \<open>(1, 0)\<close>; no flag was set.\<close>

definition rowWon :: Game where
  "rowWon = (rowGame 0 (Some 1)
     [mkTurn 0 0 False 1 [mkTile 0 False True, mkTile 1 False False, mkTile 9 False False],
      mkTurn 1 0 False 1 [mkTile 0 False True, mkTile 1 False True, mkTile 9 False False]])
     \<lparr>won := True\<rparr>"

lemma row_win:
  "ClickTile (Suc (Suc 0)) [(2, 0)] 1 (rowGame 0 None []) 0 0 False = Some (rowWon, None)"
  by (simp add: rowWon_def demo_defs eval_defs ClickTile.simps(2) clickLoop.simps(2))

lemma moveBody_active:
  "moveBody k rnd now x y flag g1 = Some (g', None) \<Longrightarrow> endedAt g1 = None"
  by (auto simp: moveBody_def split: if_splits)

text \<open>
  C2: when a move accepted on a reachable game leaves every tile revealed or a mine, and
  no mine revealed, the game, in progress before, is ended and won; and the view of a won
  game reports the number of mines as its flags, whatever the flag counter holds.
\<close>

theorem win_detected:
  assumes r: "reachable g" and c: "ClickTile k rnd now g x y flag = Some (g', None)"
    and opened: "\<forall>t \<in> set (lastTiles g'). clicked t \<or> isMine t"
    and safe: "\<forall>t \<in> set (lastTiles g'). \<not> (clicked t \<and> isMine t)"
  shows "endedAt g = None \<and> endedAt g' \<noteq> None \<and> won g' \<and>
         view_won (JSON g') = Some True \<and> view_flags (JSON g') = mines g'"
  using c
proof (cases rule: ClickTile_cases)
  case outside
  then show ?thesis by auto
next
  case (inside k' ts)
  let ?g1 = "pushTurn g x y flag now ts"
  have s1: "sound ?g1" using reachable_sound[OF r] inside(2,3,4) by (rule sound_pushTurn)
  then have ok1: "okGame ?g1" "history ?g1 \<noteq> []" by (simp_all add: sound_def)
  have "evolves ?g1 g'"
    using inside(2,3,5) ok1 by (intro moveBody_evolves[of ?g1 x y k' rnd now flag g' None]) simp_all
  then have "endedOk g'" "history g' \<noteq> []" using s1 by (simp_all add: evolves_def sound_def)
  moreover have "winOk g'" using ok1 inside(5) by (rule moveBody_winOk)
  ultimately have "endedAt g' \<noteq> None" "won g'"
    using opened safe by (auto simp: winOk_def endedOk_def mineShown_def)
  moreover have "endedAt g = None" using moveBody_active[OF inside(5)] by simp
  ultimately show ?thesis by (simp add: JSON_def)
qed

theorem win_detected_witness:
  "endedAt (rowGame 0 None []) = None \<and> endedAt rowWon \<noteq> None \<and> won rowWon \<and>
   view_won (JSON rowWon) = Some True \<and> view_flags (JSON rowWon) = mines rowWon \<and>
   flags rowWon = 0 \<and> mines rowWon = 1"
  using win_detected[OF reach_new[OF row_new] row_win]
  by (simp add: rowWon_def demo_defs lastTiles_def isMine_def)

section \<open>Termination of the cascade\<close>

text \<open>
  The number of tiles not yet revealed bounds the depth of the calls: a call made by
  \<^verbatim>\<open>clickNeighbors\<close> either reveals a tile, or finds its tile revealed since
  \<^verbatim>\<open>clickNeighbors\<close> read the tiles, and then fewer tiles are hidden than on that entry.
\<close>

definition hidden :: "tile list \<Rightarrow> nat" where
  "hidden ts = length (filter (\<lambda>t. \<not> clicked t) ts)"

lemma hidden_le: "list_all2 tileLe a b \<Longrightarrow> hidden b \<le> hidden a"
  unfolding hidden_def by (rule count_all2_le[where R = tileLe]) (auto simp: tileLe_def)

lemma hidden_less:
  "list_all2 tileLe a b \<Longrightarrow> i < length a \<Longrightarrow> \<not> clicked (a ! i) \<Longrightarrow> clicked (b ! i) \<Longrightarrow>
   hidden b < hidden a"
  unfolding hidden_def by (rule count_all2_less[where i = i and R = tileLe]) (auto simp: tileLe_def)

lemma hidden_click:
  "i < length ts \<Longrightarrow> \<not> clicked (ts ! i) \<Longrightarrow> Suc (hidden (ts[i := (ts ! i)\<lparr>clicked := True\<rparr>])) = hidden ts"
  unfolding hidden_def by (rule count_update_clear) simp_all

lemma dispatch_returns:
  assumes cn: "\<And>g2. okGame g2 \<Longrightarrow> history g2 \<noteq> [] \<Longrightarrow> hidden (lastTiles g2) \<le> k \<Longrightarrow> \<exists>g3. cn g2 = Some g3"
    and ok: "okGame g1" "history g1 \<noteq> []"
    and n: "n = length (history g1) - 1"
    and idx: "idx < width g1 * height g1"
    and t: "t = lastTiles g1 ! idx"
    and bound: "hidden (lastTiles g1) \<le> k \<or> (hidden (lastTiles g1) \<le> Suc k \<and> \<not> clicked t)"
  shows "\<exists>g3. dispatch cn now n idx t flag x y g1 = Some g3"
proof (cases "clicked t")
  case True
  then have "hidden (lastTiles g1) \<le> k" using bound by simp
  then have "\<exists>g3. cn g1 = Some g3" using cn ok by blast
  then show ?thesis using True by (auto simp: dispatch_def)
next
  case False
  let ?g2 = "setTile n idx (t\<lparr>clicked := True\<rparr>) g1"
  have len: "idx < length (lastTiles g1)" using idx ok by (simp add: lastTiles_length)
  have "lastTiles ?g2 = (lastTiles g1)[idx := t\<lparr>clicked := True\<rparr>]"
    using ok(2) n by (rule lastTiles_setTile)
  then have "Suc (hidden (lastTiles ?g2)) = hidden (lastTiles g1)"
    using hidden_click[OF len] False by (simp add: t)
  then have "hidden (lastTiles ?g2) \<le> k" using bound by auto
  moreover have "okGame ?g2" "history ?g2 \<noteq> []" using ok by (simp_all add: okGame_setTile)
  ultimately have "\<exists>g3. cn ?g2 = Some g3" using cn by blast
  then show ?thesis using False by (auto simp: dispatch_def)
qed

lemma moveBody_returns_step:
  assumes cn: "\<And>g2. okGame g2 \<Longrightarrow> history g2 \<noteq> [] \<Longrightarrow> hidden (lastTiles g2) \<le> k \<Longrightarrow>
        \<exists>g3. clickNeighbors k rnd now g2 x y = Some g3"
    and ok: "okGame g1" "history g1 \<noteq> []" and inb: "x < width g1" "y < height g1"
    and bound: "hidden (lastTiles g1) \<le> k \<or>
        (hidden (lastTiles g1) \<le> Suc k \<and> \<not> clicked (lastTiles g1 ! index16 g1 x y))"
  shows "\<exists>g' e. moveBody k rnd now x y flag g1 = Some (g', e)"
proof -
  have "\<exists>g3. dispatch (\<lambda>g'. clickNeighbors k rnd now g' x y) now (length (history g1) - 1)
      (index16 g1 x y) (lastTiles g1 ! index16 g1 x y) flag x y g1 = Some g3"
    by (rule dispatch_returns[OF cn ok refl index16_less[OF ok(1) inb] refl bound])
  then show ?thesis by (auto simp: moveBody_def)
qed

lemma clickLoop_returns:
  assumes IH: "\<And>g x' y'. okGame g \<Longrightarrow> history g \<noteq> [] \<Longrightarrow> x' < width g \<Longrightarrow> y' < height g \<Longrightarrow>
      hidden (lastTiles g) < k \<or> (hidden (lastTiles g) \<le> k \<and> \<not> clicked (lastTiles g ! index16 g x' y')) \<Longrightarrow>
      \<exists>g' e. ClickTile k rnd now g x' y' False = Some (g', e)"
  shows "okGame g \<Longrightarrow> history g \<noteq> [] \<Longrightarrow> list_all2 tileLe snap (lastTiles g) \<Longrightarrow> hidden snap \<le> k \<Longrightarrow>
         \<exists>g'. clickLoop k rnd now snap x y os g = Some g'"
proof (induction os arbitrary: g)
  case Nil
  then show ?case by simp
next
  case (Cons ji rest)
  obtain j i where ji: "ji = (j, i)" by (cases ji)
  let ?x = "nat (int x + i)" and ?y = "nat (int y + j)"
  let ?idx = "index16 g ?x ?y"
  have skip: "\<exists>g'. clickLoop k rnd now snap x y rest g = Some g'"
    using Cons.prems by (intro Cons.IH)
  show ?case
  proof (cases "(i = 0 \<and> j = 0) \<or> int x + i < 0 \<or> int y + j < 0 \<or>
         int (width g) \<le> int x + i \<or> int (height g) \<le> int y + j \<or>
         clicked (snap ! ?idx) \<or> flagged (snap ! ?idx)")
    case True
    then show ?thesis using skip unfolding ji clickLoop_Cons by auto
  next
    case False
    then have inb: "?x < width g" "?y < height g" by auto
    have lens: "length snap = length (lastTiles g)" using Cons.prems(3) by (rule list_all2_lengthD)
    have idx: "?idx < length snap"
      using index16_less[OF Cons.prems(1) inb] lastTiles_length[OF Cons.prems(1,2)] lens by simp
    have "hidden (lastTiles g) < k \<or> (hidden (lastTiles g) \<le> k \<and> \<not> clicked (lastTiles g ! ?idx))"
    proof (cases "clicked (lastTiles g ! ?idx)")
      case True
      then have "hidden (lastTiles g) < hidden snap"
        using hidden_less[OF Cons.prems(3) idx] False by simp
      then show ?thesis using Cons.prems(4) by simp
    next
      case False
      then show ?thesis using hidden_le[OF Cons.prems(3)] Cons.prems(4) by simp
    qed
    from IH[OF Cons.prems(1,2) inb this]
    obtain g1 e where g1: "ClickTile k rnd now g ?x ?y False = Some (g1, e)" by blast
    have e1: "ext g g1" using Cons.prems(1,2) inb g1 by (rule ClickTile_ext)
    then have "list_all2 tileLe snap (lastTiles g1)"
      using Cons.prems(3) by (blast intro: tilesLe_trans ext_tiles)
    then have "\<exists>g'. clickLoop k rnd now snap x y rest g1 = Some g'"
      using e1 Cons.prems(4) by (intro Cons.IH) (simp_all add: ext_okGame ext_history)
    then show ?thesis using False g1 unfolding ji clickLoop_Cons by auto
  qed
qed

lemma ClickTile_returns:
  "okGame g \<Longrightarrow> history g \<noteq> [] \<Longrightarrow> x < width g \<Longrightarrow> y < height g \<Longrightarrow>
   hidden (lastTiles g) < k \<or> (hidden (lastTiles g) \<le> k \<and> \<not> clicked (lastTiles g ! index16 g x y)) \<Longrightarrow>
   \<exists>g' e. ClickTile k rnd now g x y False = Some (g', e)"
proof (induction k arbitrary: g x y)
  case 0
  have "index16 g x y < length (lastTiles g)"
    using index16_less[OF 0(1,3,4)] lastTiles_length[OF 0(1,2)] by simp
  then have "0 < hidden (lastTiles g)"
    using 0(5) unfolding hidden_def by (auto simp: filter_empty_conv)
  then show ?case using 0(5) by simp
next
  case (Suc k)
  let ?g1 = "pushTurn g x y False now (lastTiles g)"
  have ok1: "okGame ?g1" "history ?g1 \<noteq> []"
    using Suc.prems(1,2) by (simp_all add: okGame_pushTurn lastTiles_length)
  have "\<exists>g' e. moveBody k rnd now x y False ?g1 = Some (g', e)"
  proof (rule moveBody_returns_step[OF _ ok1])
    fix g2
    assume a: "okGame g2" "history g2 \<noteq> []" "hidden (lastTiles g2) \<le> k"
    have "\<exists>g'. clickLoop k rnd now (lastTiles g2) x y offsets g2 = Some g'"
      using a by - (rule clickLoop_returns[OF Suc.IH], simp_all)
    then show "\<exists>g3. clickNeighbors k rnd now g2 x y = Some g3" by simp
  next
    show "hidden (lastTiles ?g1) \<le> k \<or>
        (hidden (lastTiles ?g1) \<le> Suc k \<and> \<not> clicked (lastTiles ?g1 ! index16 ?g1 x y))"
      using Suc.prems(5) by (auto simp: index16_def)
  qed (use Suc.prems in simp_all)
  then show ?case using Suc.prems by (simp add: ClickTile_moveBody newTiles_later)
qed

lemma moveBody_returns:
  assumes ok: "okGame g1" "history g1 \<noteq> []" and inb: "x < width g1" "y < height g1"
    and bound: "hidden (lastTiles g1) \<le> k"
  shows "\<exists>g' e. moveBody k rnd now x y flag g1 = Some (g', e)"
proof (rule moveBody_returns_step[OF _ ok inb])
  fix g2
  assume a: "okGame g2" "history g2 \<noteq> []" "hidden (lastTiles g2) \<le> k"
  have "\<exists>g'. clickLoop k rnd now (lastTiles g2) x y offsets g2 = Some g'"
    using a by - (rule clickLoop_returns[OF ClickTile_returns], simp_all)
  then show "\<exists>g3. clickNeighbors k rnd now g2 x y = Some g3" by simp
qed (use bound in simp)

lemma hidden_bound: "okGame g \<Longrightarrow> history g \<noteq> [] \<Longrightarrow> hidden (lastTiles g) \<le> width g * height g"
  using length_filter_le[of "\<lambda>t. \<not> clicked t" "lastTiles g"]
  by (simp add: hidden_def lastTiles_length del: length_filter_le)

text \<open>
  C7: on every reachable board whose mines are placed (a turn was taken), every in-bounds
  call of \<^verbatim>\<open>ClickTile\<close>, flag-toggle or reveal, returns, as soon as the depth allowed
  exceeds the number of tiles not yet revealed; the number of tiles of the board is always
  enough.
\<close>

theorem ClickTile_terminates:
  assumes r: "reachable g" and placed: "history g \<noteq> []"
    and inb: "x < width g" "y < height g"
    and fuel: "hidden (lastTiles g) \<le> k \<or> width g * height g \<le> k"
  shows "\<exists>g' e. ClickTile (Suc k) rnd now g x y flag = Some (g', e)"
proof -
  have ok: "okGame g" using r by (rule reachable_okGame)
  let ?g1 = "pushTurn g x y flag now (lastTiles g)"
  have "hidden (lastTiles g) \<le> k" using fuel hidden_bound[OF ok placed] by auto
  then have "\<exists>g' e. moveBody k rnd now x y flag ?g1 = Some (g', e)"
    using ok placed inb by (intro moveBody_returns) (simp_all add: okGame_pushTurn lastTiles_length)
  then show ?thesis using ok placed inb by (simp add: ClickTile_moveBody newTiles_later)
qed

theorem ClickTile_terminates_witness:
  "hidden (lastTiles rowFlagged) \<le> 2 \<and>
   (\<exists>g' e. ClickTile (Suc 2) [] 3 rowFlagged 1 0 False = Some (g', e))"
proof -
  have h: "hidden (lastTiles rowFlagged) \<le> 2" by (simp add: hidden_def demo_defs lastTiles_def)
  have "history rowFlagged \<noteq> []" "(1::nat) < width rowFlagged" "(0::nat) < height rowFlagged"
    by (simp_all add: rowFlagged_def rowGame_def)
  from ClickTile_terminates[OF reachable_rowFlagged this, of 2 "[]" 3 False] h
  show ?thesis by simp
qed

section \<open>Chording\<close>

































end
